theory Spec2Isabelle
  imports Main "HOL-Library.Multiset"
begin

section \<open>The game server of \<^verbatim>\<open>src/server.c\<close>\<close>

text \<open>
  The server keeps one global game state (four player slots, a counter of occupied slots
  and a 5 x 5 obstacle grid), guarded by one mutex. Every mutation happens inside a
  critical section, so the program is modelled as a transition system whose steps are the
  critical sections of \<^verbatim>\<open>main\<close> and \<^verbatim>\<open>client_handler\<close>.

  What the environment decides is an explicit argument of the model:
  \<^item> \<open>rnd\<close>, the sequence of values returned by successive calls of \<^verbatim>\<open>rand()\<close>
    (fixed by \<^verbatim>\<open>srand\<close>), together with the number of calls made so far;
  \<^item> \<open>fails\<close>, which tells for each slot whether the \<^verbatim>\<open>send\<close> of the snapshot to it
    returns a negative value in this broadcast pass;
  \<^item> the bytes a \<^verbatim>\<open>recv\<close> returns.
  What the server does to its sockets is returned as a list of events. The diagnostic
  output on \<^verbatim>\<open>stdout\<close> and \<^verbatim>\<open>stderr\<close> is left out.

  The C \<^verbatim>\<open>int\<close>s are modelled as \<open>int\<close>. In every reachable configuration the
  coordinates of all slots are within 0..4 and their health within 0..100 (lemma
  \<open>reachable_values_ok\<close> below), and the counter moves by one per step, so the
  arithmetic of the program stays far from the bounds of a 32-bit \<^verbatim>\<open>int\<close>.
\<close>

subsection \<open>Constants and data\<close>

abbreviation GRID_SIZE :: int where "GRID_SIZE \<equiv> 5"
abbreviation MAX_PLAYERS :: nat where "MAX_PLAYERS \<equiv> 4"
abbreviation MAX_HP :: int where "MAX_HP \<equiv> 100"
abbreviation DAMAGE :: int where "DAMAGE \<equiv> 20"

record Player =
  symbol :: char
  row :: int
  col :: int
  hp :: int
  socket_fd :: int
  active :: int

record game_state =
  players :: "Player list"
  player_count :: int
  obstacles :: "int list list"

datatype event = Send int string | Close int

text \<open>The array \<^verbatim>\<open>players\<close> has four entries and \<^verbatim>\<open>obstacles\<close> is 5 x 5.\<close>

definition wf_grid :: "int list list \<Rightarrow> bool" where
  "wf_grid obs = (length obs = 5 \<and> list_all (\<lambda>line. length line = 5) obs)"

definition wf_state :: "game_state \<Rightarrow> bool" where
  "wf_state s = (length (players s) = MAX_PLAYERS \<and> wf_grid (obstacles s))"

definition obstacle_at :: "game_state \<Rightarrow> int \<Rightarrow> int \<Rightarrow> int" where
  "obstacle_at s r c = obstacles s ! nat r ! nat c"

subsection \<open>Text\<close>

definition nl :: string where
  "nl = [CHR 0x0A]"

definition msg_usage :: string where
  "msg_usage = ''Usage: MOVE <UP|DOWN|LEFT|RIGHT>'' @ nl"

definition msg_invalid_direction :: string where
  "msg_invalid_direction = ''Invalid direction. Use UP, DOWN, LEFT, or RIGHT.'' @ nl"

definition msg_out_of_bounds :: string where
  "msg_out_of_bounds = ''Move blocked: out of bounds.'' @ nl"

definition msg_obstacle :: string where
  "msg_obstacle = ''Move blocked: obstacle in the way.'' @ nl"

definition msg_occupied :: string where
  "msg_occupied = ''Move blocked: another player is in that cell.'' @ nl"

definition msg_no_targets :: string where
  "msg_no_targets = ''No targets adjacent to attack.'' @ nl"

definition msg_unknown :: string where
  "msg_unknown = ''Unknown command. Available commands: MOVE, ATTACK, QUIT.'' @ nl"

definition msg_server_full :: string where
  "msg_server_full = ''Server full. Try again later.'' @ nl"

definition msg_no_slot :: string where
  "msg_no_slot = ''Server error: no slot available.'' @ nl"

definition welcome_msg :: "char \<Rightarrow> string" where
  "welcome_msg ch = ''Welcome to the game! You are player '' @ [ch] @ ''.'' @ nl"

text \<open>\<^verbatim>\<open>toupper\<close>, \<^verbatim>\<open>tolower\<close> and \<^verbatim>\<open>isspace\<close> in the C locale (the program never sets another).\<close>

definition c_toupper :: "char \<Rightarrow> char" where
  "c_toupper ch = (let n = (of_char ch :: nat) in
     if 97 \<le> n \<and> n \<le> 122 then char_of (n - 32) else ch)"

definition c_tolower :: "char \<Rightarrow> char" where
  "c_tolower ch = (let n = (of_char ch :: nat) in
     if 65 \<le> n \<and> n \<le> 90 then char_of (n + 32) else ch)"

definition c_isspace :: "char \<Rightarrow> bool" where
  "c_isspace ch = (let n = (of_char ch :: nat) in n = 32 \<or> (9 \<le> n \<and> n \<le> 13))"

text \<open>\<^verbatim>\<open>strcasecmp(a, b) == 0\<close> and \<^verbatim>\<open>strncasecmp(a, b, n) == 0\<close> on strings without NUL.\<close>

definition strcasecmp_eq :: "string \<Rightarrow> string \<Rightarrow> bool" where
  "strcasecmp_eq a b = (map c_tolower a = map c_tolower b)"

definition strncasecmp_eq :: "string \<Rightarrow> string \<Rightarrow> nat \<Rightarrow> bool" where
  "strncasecmp_eq a b n = (map c_tolower (take n a) = map c_tolower (take n b))"

text \<open>\<^verbatim>\<open>sscanf(str, "%15s", direction)\<close>: skip white space, then read at most 15
  characters that are not white space. The empty result stands for a return value other
  than 1.\<close>

definition scan_token :: "string \<Rightarrow> string" where
  "scan_token str = take 15 (takeWhile (\<lambda>ch. \<not> c_isspace ch) (dropWhile c_isspace str))"

text \<open>The received bytes as a C string, cut at the first CR or LF (\<^verbatim>\<open>strpbrk\<close>).\<close>

definition c_line :: "string \<Rightarrow> string" where
  "c_line buf = takeWhile (\<lambda>ch. ch \<noteq> CHR 0x00 \<and> ch \<noteq> CHR 0x0D \<and> ch \<noteq> CHR 0x0A) buf"

text \<open>\<^verbatim>\<open>%d\<close>.\<close>

fun digits :: "nat \<Rightarrow> string" where
  "digits n = (if n < 10 then [char_of (48 + n)]
     else digits (n div 10) @ [char_of (48 + n mod 10)])"

declare digits.simps [simp del]

definition show_int :: "int \<Rightarrow> string" where
  "show_int i = (if i < 0 then CHR ''-'' # digits (nat (- i)) else digits (nat i))"

subsection \<open>\<^verbatim>\<open>broadcast_state_locked\<close>\<close>

text \<open>The snapshot. With 32-bit values it has at most 258 characters, so the 512-byte
  buffer never truncates it.\<close>

definition cell_char :: "game_state \<Rightarrow> int \<Rightarrow> int \<Rightarrow> char" where
  "cell_char s r c =
     (case find (\<lambda>p. active p \<noteq> 0 \<and> row p = r \<and> col p = c) (take MAX_PLAYERS (players s)) of
        Some p \<Rightarrow> symbol p
      | None \<Rightarrow> if obstacle_at s r c = 1 then CHR ''X'' else CHR ''.'')"

definition grid_line :: "game_state \<Rightarrow> int \<Rightarrow> string" where
  "grid_line s r = concat (map (\<lambda>c. [cell_char s r c, CHR '' '']) [0..GRID_SIZE - 1]) @ nl"

definition player_line :: "Player \<Rightarrow> string" where
  "player_line p = [symbol p] @ '': HP='' @ show_int (hp p) @ '' at ('' @ show_int (row p)
     @ '','' @ show_int (col p) @ '')'' @ nl"

definition state_msg :: "game_state \<Rightarrow> string" where
  "state_msg s = ''Grid:'' @ nl @ concat (map (grid_line s) [0..GRID_SIZE - 1])
     @ ''Players:'' @ nl
     @ concat (map player_line (filter (\<lambda>p. active p \<noteq> 0) (take MAX_PLAYERS (players s))))"

text \<open>The sequence \<^verbatim>\<open>close; socket_fd = -1; active = 0; player_count--\<close> on slot \<open>p\<close>, as far
  as it touches the state (lines 92-95, 124-127, 241-244, 396-399).\<close>

definition remove_player :: "nat \<Rightarrow> game_state \<Rightarrow> game_state" where
  "remove_player p s =
     s\<lparr>players := (players s)[p := (players s ! p)\<lparr>socket_fd := - 1, active := 0\<rparr>],
       player_count := player_count s - 1\<rparr>"

text \<open>One round of the delivery loop, for slot \<open>p\<close>.\<close>

definition deliver :: "(nat \<Rightarrow> bool) \<Rightarrow> string \<Rightarrow> nat \<Rightarrow> game_state \<times> event list
    \<Rightarrow> game_state \<times> event list" where
  "deliver fails msg p = (\<lambda>(s, out).
     if active (players s ! p) = 0 then (s, out)
     else let sock = socket_fd (players s ! p) in
       if sock < 0 then (s, out)
       else if fails p then (remove_player p s, out @ [Send sock msg, Close sock])
       else (s, out @ [Send sock msg]))"

definition broadcast_state_locked :: "(nat \<Rightarrow> bool) \<Rightarrow> game_state \<Rightarrow> game_state \<times> event list" where
  "broadcast_state_locked fails s = fold (deliver fails (state_msg s)) [0..<MAX_PLAYERS] (s, [])"

subsection \<open>\<^verbatim>\<open>client_handler\<close>\<close>

text \<open>Is there an active player other than \<open>idx\<close> in the cell? (lines 182-189, 384)\<close>

definition cell_taken :: "game_state \<Rightarrow> nat \<Rightarrow> int \<Rightarrow> int \<Rightarrow> bool" where
  "cell_taken s idx r c = list_ex (\<lambda>q. active (players s ! q) \<noteq> 0 \<and> q \<noteq> idx \<and>
     row (players s ! q) = r \<and> col (players s ! q) = c) [0..<MAX_PLAYERS]"

definition set_position :: "nat \<Rightarrow> int \<Rightarrow> int \<Rightarrow> game_state \<Rightarrow> game_state" where
  "set_position idx r c s = s\<lparr>players := (players s)[idx := (players s ! idx)\<lparr>row := r, col := c\<rparr>]\<rparr>"

text \<open>The critical section of MOVE (lines 168-201), for the target the thread computed.\<close>

definition move_locked :: "nat \<Rightarrow> int \<Rightarrow> (nat \<Rightarrow> bool) \<Rightarrow> int \<Rightarrow> int \<Rightarrow> game_state
    \<Rightarrow> game_state \<times> event list" where
  "move_locked idx sockfd fails newR newC s =
     (if newR < 0 \<or> newR \<ge> GRID_SIZE \<or> newC < 0 \<or> newC \<ge> GRID_SIZE
        then (s, [Send sockfd msg_out_of_bounds])
      else if obstacle_at s newR newC = 1 then (s, [Send sockfd msg_obstacle])
      else if cell_taken s idx newR newC then (s, [Send sockfd msg_occupied])
      else broadcast_state_locked fails (set_position idx newR newC s))"

text \<open>MOVE (lines 141-201); \<open>line\<close> starts with the keyword. The thread reads its slot's
  position at lines 152-153, where it does not hold the lock: \<open>seenR\<close> and \<open>seenC\<close> are
  the values these two reads return, and \<open>s\<close> is the state in which the thread later gets
  the lock (line 168). Other threads may run in between, so \<open>seenR\<close> and \<open>seenC\<close> need not
  be the position the slot has in \<open>s\<close>.\<close>

definition handle_move :: "nat \<Rightarrow> int \<Rightarrow> (nat \<Rightarrow> bool) \<Rightarrow> string \<Rightarrow> int \<Rightarrow> int \<Rightarrow> game_state
    \<Rightarrow> game_state \<times> event list" where
  "handle_move idx sockfd fails line seenR seenC s =
     (let direction = map c_toupper (scan_token (drop 4 line));
          newR = seenR;
          newC = seenC
      in if direction = [] then (s, [Send sockfd msg_usage])
         else if direction = ''UP'' then move_locked idx sockfd fails (newR - 1) newC s
         else if direction = ''DOWN'' then move_locked idx sockfd fails (newR + 1) newC s
         else if direction = ''LEFT'' then move_locked idx sockfd fails newR (newC - 1) s
         else if direction = ''RIGHT'' then move_locked idx sockfd fails newR (newC + 1) s
         else (s, [Send sockfd msg_invalid_direction]))"

text \<open>ATTACK (lines 203-236). One round of the scan, for slot \<open>q\<close>; the state of the scan
  is the game state, the events so far, and \<^verbatim>\<open>hit\<close>.\<close>

definition adjacent :: "int \<Rightarrow> int \<Rightarrow> Player \<Rightarrow> bool" where
  "adjacent attackerR attackerC p =
     (let dr = row p - attackerR; dc = col p - attackerC
      in (\<bar>dr\<bar> = 1 \<and> dc = 0) \<or> (\<bar>dc\<bar> = 1 \<and> dr = 0))"

definition attack_target :: "nat \<Rightarrow> int \<Rightarrow> int \<Rightarrow> nat \<Rightarrow> game_state \<times> event list \<times> bool
    \<Rightarrow> game_state \<times> event list \<times> bool" where
  "attack_target idx attackerR attackerC q = (\<lambda>(s, out, hit).
     let p = players s ! q in
     if active p \<noteq> 0 \<and> q \<noteq> idx \<and> adjacent attackerR attackerC p then
       (if hp p - DAMAGE \<le> 0
          then (s\<lparr>players := (players s)[q := p\<lparr>hp := 0, socket_fd := - 1, active := 0\<rparr>],
                  player_count := player_count s - 1\<rparr>,
                out @ [Close (socket_fd p)], True)
          else (s\<lparr>players := (players s)[q := p\<lparr>hp := hp p - DAMAGE\<rparr>]\<rparr>, out, True))
     else (s, out, hit))"

definition attack_scan :: "nat \<Rightarrow> nat list \<Rightarrow> game_state \<Rightarrow> game_state \<times> event list \<times> bool" where
  "attack_scan idx qs s =
     fold (attack_target idx (row (players s ! idx)) (col (players s ! idx))) qs (s, [], False)"

definition handle_attack :: "nat \<Rightarrow> int \<Rightarrow> (nat \<Rightarrow> bool) \<Rightarrow> game_state \<Rightarrow> game_state \<times> event list" where
  "handle_attack idx sockfd fails s =
     (case attack_scan idx [0..<MAX_PLAYERS] s of (s1, out, hit) \<Rightarrow>
        if \<not> hit then (s1, out @ [Send sockfd msg_no_targets])
        else (case broadcast_state_locked fails s1 of (s2, out2) \<Rightarrow> (s2, out @ out2)))"

text \<open>QUIT (lines 239-247).\<close>

definition handle_quit :: "nat \<Rightarrow> (nat \<Rightarrow> bool) \<Rightarrow> game_state \<Rightarrow> game_state \<times> event list" where
  "handle_quit idx fails s =
     (case broadcast_state_locked fails (remove_player idx s) of
        (s1, out) \<Rightarrow> (s1, Close (socket_fd (players s ! idx)) # out))"

text \<open>One received buffer (lines 135-253), with the values \<open>seenR\<close> and \<open>seenC\<close> that
  the unlocked reads of the MOVE branch return, should the line be a MOVE. ATTACK and QUIT
  read the state under the lock only. The third component tells whether the loop is
  left.\<close>

definition client_command :: "nat \<Rightarrow> int \<Rightarrow> (nat \<Rightarrow> bool) \<Rightarrow> string \<Rightarrow> int \<Rightarrow> int \<Rightarrow> game_state
    \<Rightarrow> game_state \<times> event list \<times> bool" where
  "client_command idx sockfd fails buf seenR seenC s =
     (let line = c_line buf in
      if strncasecmp_eq line ''MOVE'' 4 then
        (case handle_move idx sockfd fails line seenR seenC s of (s1, out) \<Rightarrow> (s1, out, False))
      else if strcasecmp_eq line ''ATTACK'' then
        (case handle_attack idx sockfd fails s of (s1, out) \<Rightarrow> (s1, out, False))
      else if strcasecmp_eq line ''QUIT'' then
        (case handle_quit idx fails s of (s1, out) \<Rightarrow> (s1, out, True))
      else (s, [Send sockfd msg_unknown], False))"

text \<open>\<^verbatim>\<open>recv\<close> returned 0 or less (lines 118-133).\<close>

definition client_disconnect :: "nat \<Rightarrow> (nat \<Rightarrow> bool) \<Rightarrow> game_state \<Rightarrow> game_state \<times> event list" where
  "client_disconnect idx fails s =
     (if active (players s ! idx) \<noteq> 0 then
        (case broadcast_state_locked fails (remove_player idx s) of
           (s1, out) \<Rightarrow> (s1, Close (socket_fd (players s ! idx)) # out))
      else (s, []))"

text \<open>After the loop (lines 257-264).\<close>

definition client_cleanup :: "nat \<Rightarrow> int \<Rightarrow> game_state \<Rightarrow> game_state \<times> event list" where
  "client_cleanup idx sockfd s =
     (if active (players s ! idx) \<noteq> 0 then
        (s\<lparr>players := (players s)[idx := (players s ! idx)\<lparr>active := 0\<rparr>],
           player_count := player_count s - 1\<rparr>, [Close sockfd])
      else (s, [Close sockfd]))"

subsection \<open>\<^verbatim>\<open>main\<close>\<close>

text \<open>Initialisation (lines 291-309). The obstacle loop re-rolls on a collision
  (\<^verbatim>\<open>k--\<close> followed by \<^verbatim>\<open>++k\<close>), so it may run forever: not returning is \<open>None\<close>.
  \<open>n\<close> is the number of \<^verbatim>\<open>rand()\<close> calls made so far.\<close>

definition init_players :: "Player list" where
  "init_players = map (\<lambda>i. \<lparr>symbol = char_of (65 + i), row = 0, col = 0, hp = 0,
     socket_fd = - 1, active = 0\<rparr>) [0..<MAX_PLAYERS]"

definition set_obstacle :: "nat \<Rightarrow> nat \<Rightarrow> int list list \<Rightarrow> int list list" where
  "set_obstacle r c obs = obs[r := (obs ! r)[c := 1]]"

partial_function (option) place_obstacles :: "(nat \<Rightarrow> nat) \<Rightarrow> nat \<Rightarrow> nat \<Rightarrow> nat \<Rightarrow> int list list
    \<Rightarrow> (int list list \<times> nat) option" where
  "place_obstacles rnd obstacle_count k n obs =
     (if k < obstacle_count then
        (if obs ! (rnd n mod 5) ! (rnd (n + 1) mod 5) = 1
           then place_obstacles rnd obstacle_count k (n + 2) obs
         else place_obstacles rnd obstacle_count (k + 1) (n + 2)
                (set_obstacle (rnd n mod 5) (rnd (n + 1) mod 5) obs))
      else Some (obs, n))"

declare place_obstacles.simps [code]

definition init_game :: "(nat \<Rightarrow> nat) \<Rightarrow> (game_state \<times> nat) option" where
  "init_game rnd =
     (case place_obstacles rnd (3 + rnd 0 mod 3) 0 1 (replicate 5 (replicate 5 0)) of
        None \<Rightarrow> None
      | Some (obs, n) \<Rightarrow> Some (\<lparr>players = init_players, player_count = 0, obstacles = obs\<rparr>, n))"

text \<open>The accept loop, for one accepted connection (lines 350-389). The placement loop
  (lines 380-384) draws a row and a column until the cell is neither an obstacle nor taken
  by another active player.\<close>

definition occupy :: "nat \<Rightarrow> int \<Rightarrow> game_state \<Rightarrow> game_state" where
  "occupy idx client_fd s =
     s\<lparr>players := (players s)[idx := (players s ! idx)\<lparr>hp := MAX_HP, socket_fd := client_fd,
       active := 1\<rparr>]\<rparr>"

definition draw_position :: "(nat \<Rightarrow> nat) \<Rightarrow> nat \<Rightarrow> nat \<Rightarrow> game_state \<Rightarrow> game_state" where
  "draw_position rnd idx n s = set_position idx (int (rnd n mod 5)) (int (rnd (n + 1) mod 5)) s"

definition blocked :: "game_state \<Rightarrow> nat \<Rightarrow> bool" where
  "blocked s idx = (obstacle_at s (row (players s ! idx)) (col (players s ! idx)) = 1 \<or>
     cell_taken s idx (row (players s ! idx)) (col (players s ! idx)))"

partial_function (option) spawn_position :: "(nat \<Rightarrow> nat) \<Rightarrow> nat \<Rightarrow> nat \<Rightarrow> game_state
    \<Rightarrow> (game_state \<times> nat) option" where
  "spawn_position rnd idx n s =
     (if blocked (draw_position rnd idx n s) idx
        then spawn_position rnd idx (n + 2) (draw_position rnd idx n s)
      else Some (draw_position rnd idx n s, n + 2))"

declare spawn_position.simps [code]

definition find_free_slot :: "game_state \<Rightarrow> nat option" where
  "find_free_slot s = find (\<lambda>i. active (players s ! i) = 0) [0..<MAX_PLAYERS]"

text \<open>The result: the state, the number of \<^verbatim>\<open>rand()\<close> calls, the events, and the slot
  the connection got (if any).\<close>

definition accept_client :: "(nat \<Rightarrow> nat) \<Rightarrow> int \<Rightarrow> (nat \<Rightarrow> bool) \<Rightarrow> nat \<Rightarrow> game_state
    \<Rightarrow> (game_state \<times> nat \<times> event list \<times> nat option) option" where
  "accept_client rnd client_fd fails n s =
     (if player_count s \<ge> int MAX_PLAYERS
        then Some (s, n, [Send client_fd msg_server_full, Close client_fd], None)
      else case find_free_slot s of
        None \<Rightarrow> Some (s, n, [Send client_fd msg_no_slot, Close client_fd], None)
      | Some idx \<Rightarrow>
          (case spawn_position rnd idx n (occupy idx client_fd s) of
             None \<Rightarrow> None
           | Some (s1, n1) \<Rightarrow>
               (case broadcast_state_locked fails (s1\<lparr>player_count := player_count s1 + 1\<rparr>) of
                  (s2, out) \<Rightarrow> Some (s2, n1, out, Some idx))))"

text \<open>\<^verbatim>\<open>pthread_create\<close> failed (lines 395-400).\<close>

definition spawn_failed :: "nat \<Rightarrow> game_state \<Rightarrow> game_state \<times> event list" where
  "spawn_failed idx s = (remove_player idx s, [Close (socket_fd (players s ! idx))])"

text \<open>The start of a handler thread (lines 106-112): its copy of the socket and the
  welcome message.\<close>

definition client_start :: "nat \<Rightarrow> game_state \<Rightarrow> int \<times> event list" where
  "client_start idx s = (socket_fd (players s ! idx),
     [Send (socket_fd (players s ! idx)) (welcome_msg (symbol (players s ! idx)))])"

subsection \<open>The server as a transition system\<close>

text \<open>
  A configuration is the game state, the number of \<^verbatim>\<open>rand()\<close> calls made, the handler
  threads that are alive (each with its \<^verbatim>\<open>player_index\<close> and \<^verbatim>\<open>sockfd\<close>, and whether it has
  left its loop and is about to run the final cleanup), and the slot for which
  \<^verbatim>\<open>pthread_create\<close> has just failed, if any. Every rule is one critical section.

  A handler stays alive when another thread frees its slot (an attack that kills it, a
  failed broadcast): nothing tells the thread, which is blocked in \<^verbatim>\<open>recv\<close> or waits for
  the lock with a line it has already received. It goes on handling what it receives,
  for its \<^verbatim>\<open>player_index\<close>, until its own \<^verbatim>\<open>recv\<close> fails or it handles QUIT; the slot may
  be free then, or occupied by a later client.

  A thread reads its slot's position before it takes the lock (lines 152-153). In rule
  \<open>command\<close> no other thread runs between these reads and the critical section, so the
  values read are the slot's position in the state of the critical section. Otherwise the
  target of a move may come from an earlier position of the slot, when the slot was
  occupied anew in between; rule \<open>stale_move\<close> is the critical section of such a move, and
  admits any target.
\<close>

record handler =
  player_index :: nat
  sockfd :: int
  leaving :: bool

record config =
  game :: game_state
  rand_calls :: nat
  handlers :: "handler list"
  unspawned :: "nat option"

inductive reachable :: "(nat \<Rightarrow> nat) \<Rightarrow> config \<Rightarrow> bool" for rnd :: "nat \<Rightarrow> nat" where
  start: "init_game rnd = Some (s, n) \<Longrightarrow>
     reachable rnd \<lparr>game = s, rand_calls = n, handlers = [], unspawned = None\<rparr>"
| refuse: "reachable rnd c \<Longrightarrow> unspawned c = None \<Longrightarrow>
     accept_client rnd client_fd fails (rand_calls c) (game c) = Some (s, n, out, None) \<Longrightarrow>
     reachable rnd (c\<lparr>game := s, rand_calls := n\<rparr>)"
| join: "reachable rnd c \<Longrightarrow> unspawned c = None \<Longrightarrow>
     accept_client rnd client_fd fails (rand_calls c) (game c) = Some (s, n, out, Some idx) \<Longrightarrow>
     reachable rnd (c\<lparr>game := s, rand_calls := n,
       handlers := \<lparr>player_index = idx, sockfd = fst (client_start idx s), leaving = False\<rparr>
         # handlers c\<rparr>)"
| join_unspawned: "reachable rnd c \<Longrightarrow> unspawned c = None \<Longrightarrow>
     accept_client rnd client_fd fails (rand_calls c) (game c) = Some (s, n, out, Some idx) \<Longrightarrow>
     reachable rnd (c\<lparr>game := s, rand_calls := n, unspawned := Some idx\<rparr>)"
| unspawned_cleanup: "reachable rnd c \<Longrightarrow> unspawned c = Some idx \<Longrightarrow>
     reachable rnd (c\<lparr>game := fst (spawn_failed idx (game c)), unspawned := None\<rparr>)"
| command: "reachable rnd c \<Longrightarrow> h \<in> set (handlers c) \<Longrightarrow> \<not> leaving h \<Longrightarrow>
     0 < length buf \<Longrightarrow> length buf \<le> 255 \<Longrightarrow>
     client_command (player_index h) (sockfd h) fails buf
       (row (players (game c) ! player_index h)) (col (players (game c) ! player_index h)) (game c)
       = (s, out, quit) \<Longrightarrow>
     reachable rnd (c\<lparr>game := s, handlers := h\<lparr>leaving := quit\<rparr> # remove1 h (handlers c)\<rparr>)"
| stale_move: "reachable rnd c \<Longrightarrow> h \<in> set (handlers c) \<Longrightarrow> \<not> leaving h \<Longrightarrow>
     reachable rnd
       (c\<lparr>game := fst (move_locked (player_index h) (sockfd h) fails newR newC (game c))\<rparr>)"
| disconnect: "reachable rnd c \<Longrightarrow> h \<in> set (handlers c) \<Longrightarrow> \<not> leaving h \<Longrightarrow>
     reachable rnd (c\<lparr>game := fst (client_disconnect (player_index h) fails (game c)),
       handlers := h\<lparr>leaving := True\<rparr> # remove1 h (handlers c)\<rparr>)"
| cleanup: "reachable rnd c \<Longrightarrow> h \<in> set (handlers c) \<Longrightarrow> leaving h \<Longrightarrow>
     reachable rnd (c\<lparr>game := fst (client_cleanup (player_index h) (sockfd h) (game c)),
       handlers := remove1 h (handlers c)\<rparr>)"

subsection \<open>Notions used in the statements\<close>

text \<open>The \<^verbatim>\<open>send\<close> of the snapshot to slot \<open>p\<close> is attempted and fails; and what the
  delivery loop does to the socket of slot \<open>p\<close>.\<close>

definition send_fails :: "(nat \<Rightarrow> bool) \<Rightarrow> game_state \<Rightarrow> nat \<Rightarrow> bool" where
  "send_fails fails s p = (active (players s ! p) \<noteq> 0 \<and> 0 \<le> socket_fd (players s ! p) \<and> fails p)"

definition delivery :: "(nat \<Rightarrow> bool) \<Rightarrow> game_state \<Rightarrow> string \<Rightarrow> nat \<Rightarrow> event list" where
  "delivery fails s msg p =
     (if active (players s ! p) \<noteq> 0 \<and> 0 \<le> socket_fd (players s ! p)
      then Send (socket_fd (players s ! p)) msg
        # (if fails p then [Close (socket_fd (players s ! p))] else [])
      else [])"

text \<open>What lines 215-223 do to the record of a player that is hit; the targets of an
  attack by slot \<open>idx\<close> (the other occupied slots at Manhattan distance 1); and the
  targets that do not survive it.\<close>

definition struck :: "Player \<Rightarrow> Player" where
  "struck p = (if hp p - DAMAGE \<le> 0 then p\<lparr>hp := 0, socket_fd := - 1, active := 0\<rparr>
     else p\<lparr>hp := hp p - DAMAGE\<rparr>)"

definition is_target :: "game_state \<Rightarrow> nat \<Rightarrow> nat \<Rightarrow> bool" where
  "is_target s idx q = (q \<noteq> idx \<and> active (players s ! q) \<noteq> 0 \<and>
     \<bar>row (players s ! q) - row (players s ! idx)\<bar>
       + \<bar>col (players s ! q) - col (players s ! idx)\<bar> = 1)"

definition dies :: "game_state \<Rightarrow> nat \<Rightarrow> nat \<Rightarrow> bool" where
  "dies s idx q = (is_target s idx q \<and> hp (players s ! q) \<le> DAMAGE)"

text \<open>The invariant of claim C1 on a game state; the relation between a state and a
  later one in which slots were freed and nothing else that matters for the invariant
  changed; and the invariant of a configuration.\<close>

definition positions_ok :: "game_state \<Rightarrow> bool" where
  "positions_ok s = (\<forall>i<MAX_PLAYERS. active (players s ! i) \<noteq> 0 \<longrightarrow>
     0 \<le> row (players s ! i) \<and> row (players s ! i) < GRID_SIZE \<and>
     0 \<le> col (players s ! i) \<and> col (players s ! i) < GRID_SIZE \<and>
     obstacle_at s (row (players s ! i)) (col (players s ! i)) \<noteq> 1 \<and>
     (\<forall>j<MAX_PLAYERS. j \<noteq> i \<and> active (players s ! j) \<noteq> 0 \<longrightarrow>
        \<not> (row (players s ! j) = row (players s ! i) \<and> col (players s ! j) = col (players s ! i))))"

definition shrinks :: "game_state \<Rightarrow> game_state \<Rightarrow> bool" where
  "shrinks s s' = (length (players s') = length (players s) \<and> obstacles s' = obstacles s \<and>
     (\<forall>p<MAX_PLAYERS. row (players s' ! p) = row (players s ! p) \<and>
        col (players s' ! p) = col (players s ! p) \<and>
        (active (players s' ! p) \<noteq> 0 \<longrightarrow> active (players s ! p) \<noteq> 0)))"

definition config_ok :: "config \<Rightarrow> bool" where
  "config_ok c = (wf_state (game c) \<and> positions_ok (game c) \<and>
     (\<forall>h\<in>set (handlers c). player_index h < MAX_PLAYERS) \<and>
     (\<forall>idx. unspawned c = Some idx \<longrightarrow> idx < MAX_PLAYERS))"

text \<open>The obstacle cells of a grid; the cells given by the first \<open>m\<close> pairs of draws from
  call \<open>n\<close> on; the \<open>k\<close>-th such pair as a coordinate; a cell on which slot \<open>idx\<close> may be
  placed (inside the grid, not an obstacle, not the cell of another occupied slot); and
  the state a join reaches when it places slot \<open>idx\<close> on a cell.\<close>

definition obstacle_cells :: "int list list \<Rightarrow> (nat \<times> nat) set" where
  "obstacle_cells obs = {(r, c). r < 5 \<and> c < 5 \<and> obs ! r ! c = 1}"

definition drawn_cells :: "(nat \<Rightarrow> nat) \<Rightarrow> nat \<Rightarrow> nat \<Rightarrow> (nat \<times> nat) set" where
  "drawn_cells rnd n m = (\<lambda>j. (rnd (n + 2 * j) mod 5, rnd (n + 2 * j + 1) mod 5)) ` {..<m}"

definition drawn_cell :: "(nat \<Rightarrow> nat) \<Rightarrow> nat \<Rightarrow> nat \<Rightarrow> int \<times> int" where
  "drawn_cell rnd n k = (int (rnd (n + 2 * k) mod 5), int (rnd (n + 2 * k + 1) mod 5))"

definition admissible :: "game_state \<Rightarrow> nat \<Rightarrow> int \<times> int \<Rightarrow> bool" where
  "admissible s idx cell = (0 \<le> fst cell \<and> fst cell < GRID_SIZE \<and> 0 \<le> snd cell \<and> snd cell < GRID_SIZE \<and>
     obstacle_at s (fst cell) (snd cell) \<noteq> 1 \<and> \<not> cell_taken s idx (fst cell) (snd cell))"

definition joined :: "game_state \<Rightarrow> nat \<Rightarrow> int \<Rightarrow> int \<times> int \<Rightarrow> game_state" where
  "joined s idx fd cell =
     s\<lparr>players := (players s)[idx := (players s ! idx)\<lparr>hp := MAX_HP, socket_fd := fd,
          active := 1, row := fst cell, col := snd cell\<rparr>],
       player_count := player_count s + 1\<rparr>"

definition values_ok :: "game_state \<Rightarrow> bool" where
  "values_ok s = (\<forall>i<MAX_PLAYERS.
     0 \<le> row (players s ! i) \<and> row (players s ! i) < GRID_SIZE \<and>
     0 \<le> col (players s ! i) \<and> col (players s ! i) < GRID_SIZE \<and>
     0 \<le> hp (players s ! i) \<and> hp (players s ! i) \<le> MAX_HP)"

definition same_values :: "game_state \<Rightarrow> game_state \<Rightarrow> bool" where
  "same_values s s' = (\<forall>p<MAX_PLAYERS. row (players s' ! p) = row (players s ! p) \<and>
     col (players s' ! p) = col (players s ! p) \<and> hp (players s' ! p) = hp (players s ! p))"

subsection \<open>Example inputs\<close>

text \<open>Outcomes of the sends of one broadcast pass: none fails, or only the one to slot
  \<open>k\<close>.\<close>

definition never_fails :: "nat \<Rightarrow> bool" where
  "never_fails p = False"

definition fails_only :: "nat \<Rightarrow> nat \<Rightarrow> bool" where
  "fails_only k p = (p = k)"

text \<open>An arena with obstacles at (0,0), (3,3) and (4,4).\<close>

definition demo_obstacles :: "int list list" where
  "demo_obstacles = [[1, 0, 0, 0, 0], [0, 0, 0, 0, 0], [0, 0, 0, 0, 0], [0, 0, 0, 1, 0],
     [0, 0, 0, 0, 1]]"

text \<open>Two players next to each other in the top row: A at (0,1) between the obstacle at
  (0,0) and B at (0,2).\<close>

definition duel :: game_state where
  "duel = \<lparr>players =
     [\<lparr>symbol = CHR ''A'', row = 0, col = 1, hp = 100, socket_fd = 10, active = 1\<rparr>,
      \<lparr>symbol = CHR ''B'', row = 0, col = 2, hp = 100, socket_fd = 11, active = 1\<rparr>,
      \<lparr>symbol = CHR ''C'', row = 0, col = 0, hp = 0, socket_fd = - 1, active = 0\<rparr>,
      \<lparr>symbol = CHR ''D'', row = 0, col = 0, hp = 0, socket_fd = - 1, active = 0\<rparr>],
     player_count = 2, obstacles = demo_obstacles\<rparr>"

text \<open>The same after A has killed B.\<close>

definition after_kill :: game_state where
  "after_kill = \<lparr>players =
     [\<lparr>symbol = CHR ''A'', row = 0, col = 1, hp = 100, socket_fd = 10, active = 1\<rparr>,
      \<lparr>symbol = CHR ''B'', row = 0, col = 2, hp = 0, socket_fd = - 1, active = 0\<rparr>,
      \<lparr>symbol = CHR ''C'', row = 0, col = 0, hp = 0, socket_fd = - 1, active = 0\<rparr>,
      \<lparr>symbol = CHR ''D'', row = 0, col = 0, hp = 0, socket_fd = - 1, active = 0\<rparr>],
     player_count = 1, obstacles = demo_obstacles\<rparr>"

text \<open>A in the middle of three neighbours, two of them on their last 20 points.\<close>

definition pileup :: game_state where
  "pileup = \<lparr>players =
     [\<lparr>symbol = CHR ''A'', row = 1, col = 1, hp = 100, socket_fd = 10, active = 1\<rparr>,
      \<lparr>symbol = CHR ''B'', row = 0, col = 1, hp = 20, socket_fd = 11, active = 1\<rparr>,
      \<lparr>symbol = CHR ''C'', row = 1, col = 2, hp = 20, socket_fd = 12, active = 1\<rparr>,
      \<lparr>symbol = CHR ''D'', row = 2, col = 1, hp = 60, socket_fd = 13, active = 1\<rparr>],
     player_count = 4, obstacles = demo_obstacles\<rparr>"

text \<open>A sequence of \<^verbatim>\<open>rand()\<close> values: 3 obstacles, at (0,0), (3,3) and (4,4); then the
  draws (0,1) and (0,2) for two joins, and the draw (4,0) for a third. The states of that
  run: after the initialisation, and after the first join (the second join gives \<open>duel\<close>).\<close>

definition demo_rand :: "nat \<Rightarrow> nat" where
  "demo_rand n = (if n < 13 then [0, 0, 0, 3, 3, 4, 4, 0, 1, 0, 2, 4, 0] ! n else 0)"

definition arena0 :: game_state where
  "arena0 = \<lparr>players = init_players, player_count = 0, obstacles = demo_obstacles\<rparr>"

definition solo :: game_state where
  "solo = \<lparr>players =
     [\<lparr>symbol = CHR ''A'', row = 0, col = 1, hp = 100, socket_fd = 10, active = 1\<rparr>,
      \<lparr>symbol = CHR ''B'', row = 0, col = 0, hp = 0, socket_fd = - 1, active = 0\<rparr>,
      \<lparr>symbol = CHR ''C'', row = 0, col = 0, hp = 0, socket_fd = - 1, active = 0\<rparr>,
      \<lparr>symbol = CHR ''D'', row = 0, col = 0, hp = 0, socket_fd = - 1, active = 0\<rparr>],
     player_count = 1, obstacles = demo_obstacles\<rparr>"

text \<open>The handler threads of A and B, and the configurations of the run: after the two
  joins, while A attacks B, and after the thread of the dead B has handled QUIT.\<close>

definition handler_A :: handler where
  "handler_A = \<lparr>player_index = 0, sockfd = 10, leaving = False\<rparr>"

definition handler_B :: handler where
  "handler_B = \<lparr>player_index = 1, sockfd = 11, leaving = False\<rparr>"

definition demo_config :: config where
  "demo_config = \<lparr>game = duel, rand_calls = 11, handlers = [handler_B, handler_A],
     unspawned = None\<rparr>"

definition wounded :: "int \<Rightarrow> game_state" where
  "wounded x = duel\<lparr>players := (players duel)[1 := (players duel ! 1)\<lparr>hp := x\<rparr>]\<rparr>"

definition fight_config :: "game_state \<Rightarrow> config" where
  "fight_config s = \<lparr>game = s, rand_calls = 11, handlers = [handler_A, handler_B],
     unspawned = None\<rparr>"

definition ghost_config :: config where
  "ghost_config = \<lparr>game = after_kill\<lparr>player_count := 0\<rparr>, rand_calls = 11,
     handlers = [handler_B\<lparr>leaving := True\<rparr>, handler_A], unspawned = None\<rparr>"

text \<open>The run goes on from \<open>after_kill\<close>: a third client, on socket 12, joins into the
  slot of the dead B and is placed on (4,0). The thread that served the dead B on socket
  11 is still alive beside the new thread of the slot.\<close>

definition rejoined :: game_state where
  "rejoined = \<lparr>players =
     [\<lparr>symbol = CHR ''A'', row = 0, col = 1, hp = 100, socket_fd = 10, active = 1\<rparr>,
      \<lparr>symbol = CHR ''B'', row = 4, col = 0, hp = 100, socket_fd = 12, active = 1\<rparr>,
      \<lparr>symbol = CHR ''C'', row = 0, col = 0, hp = 0, socket_fd = - 1, active = 0\<rparr>,
      \<lparr>symbol = CHR ''D'', row = 0, col = 0, hp = 0, socket_fd = - 1, active = 0\<rparr>],
     player_count = 2, obstacles = demo_obstacles\<rparr>"

definition handler_B_new :: handler where
  "handler_B_new = \<lparr>player_index = 1, sockfd = 12, leaving = False\<rparr>"

definition rejoin_config :: config where
  "rejoin_config = \<lparr>game = rejoined, rand_calls = 13,
     handlers = [handler_B_new, handler_A, handler_B], unspawned = None\<rparr>"

text \<open>A sequence of \<^verbatim>\<open>rand()\<close> values that always gives the cell (0,0).\<close>

definition stuck_rand :: "nat \<Rightarrow> nat" where
  "stuck_rand n = 0"

text \<open>Four occupied slots with a counter of 3.\<close>

definition crowded :: game_state where
  "crowded = pileup\<lparr>player_count := 3\<rparr>"

section \<open>Properties\<close>

subsection \<open>The four slots\<close>

lemma all_less_4: "(\<forall>q<MAX_PLAYERS. P q) \<longleftrightarrow> P 0 \<and> P 1 \<and> P 2 \<and> P 3"
proof -
  have "q < MAX_PLAYERS \<longleftrightarrow> q = 0 \<or> q = 1 \<or> q = 2 \<or> q = 3" for q :: nat
    by auto
  then show ?thesis by auto
qed

lemma ex_less_4: "(\<exists>q<MAX_PLAYERS. P q) \<longleftrightarrow> P 0 \<or> P 1 \<or> P 2 \<or> P 3"
  using all_less_4[of "\<lambda>q. \<not> P q"] by blast

lemma slots_list: "[0..<MAX_PLAYERS] = [0, 1, 2, 3]"
  by code_simp

lemma card_slots: "card {p. p < MAX_PLAYERS \<and> P p} = length (filter P [0..<MAX_PLAYERS])"
proof -
  have "card {p. p < MAX_PLAYERS \<and> P p} = card (set (filter P [0..<MAX_PLAYERS]))"
    by (rule arg_cong[where f = card]) auto
  also have "\<dots> = length (filter P [0..<MAX_PLAYERS])"
    by (rule distinct_card) simp
  finally show ?thesis .
qed

subsection \<open>The example states\<close>

lemma wf_duel: "wf_state duel"
  by (simp add: wf_state_def wf_grid_def duel_def demo_obstacles_def)

lemma wf_after_kill: "wf_state after_kill"
  by (simp add: wf_state_def wf_grid_def after_kill_def demo_obstacles_def)

lemma wf_pileup: "wf_state pileup"
  by (simp add: wf_state_def wf_grid_def pileup_def demo_obstacles_def)

lemma wf_solo: "wf_state solo"
  by (simp add: wf_state_def wf_grid_def solo_def demo_obstacles_def)

lemma wf_occupied_solo: "wf_state (occupy 1 11 solo)"
  by (simp add: wf_state_def wf_grid_def occupy_def solo_def demo_obstacles_def)

lemma wf_crowded: "wf_state crowded"
  using wf_pileup by (simp add: wf_state_def crowded_def)

subsection \<open>The broadcast\<close>

lemma deliver_fold_aux:
  "n \<le> length (players s) \<Longrightarrow>
   fold (deliver fails msg) [0..<n] (s, out) =
     (s\<lparr>players := map (\<lambda>p. if p < n \<and> send_fails fails s p
                            then (players s ! p)\<lparr>socket_fd := - 1, active := 0\<rparr>
                            else players s ! p) [0..<length (players s)],
        player_count := player_count s - int (length (filter (send_fails fails s) [0..<n]))\<rparr>,
      out @ concat (map (delivery fails s msg) [0..<n]))"
proof (induction n)
  case 0
  then show ?case by (simp add: map_nth)
next
  case (Suc n)
  let ?f = "\<lambda>m p. if p < m \<and> send_fails fails s p
                            then (players s ! p)\<lparr>socket_fd := - 1, active := 0\<rparr>
                            else players s ! p"
  have n: "n < length (players s)" using Suc.prems by simp
  have upd: "(map (?f n) [0..<length (players s)])[n := (players s ! n)\<lparr>socket_fd := - 1, active := 0\<rparr>]
     = map (?f (Suc n)) [0..<length (players s)]" if "send_fails fails s n"
    using that n by (auto intro!: nth_equalityI simp: nth_list_update less_Suc_eq)
  have same: "map (?f n) [0..<length (players s)] = map (?f (Suc n)) [0..<length (players s)]"
    if "\<not> send_fails fails s n"
    using that by (auto simp: less_Suc_eq)
  show ?case
  proof (cases "send_fails fails s n")
    case True
    then show ?thesis
      using Suc n upd[OF True]
      by (simp add: deliver_def remove_player_def delivery_def send_fails_def Let_def)
  next
    case False
    then show ?thesis
      using Suc n same[OF False]
      by (auto simp add: deliver_def remove_player_def delivery_def send_fails_def Let_def)
  qed
qed

lemma broadcast_closed_form:
  assumes "length (players s) = MAX_PLAYERS"
  shows "broadcast_state_locked fails s =
     (s\<lparr>players := map (\<lambda>p. if send_fails fails s p
                            then (players s ! p)\<lparr>socket_fd := - 1, active := 0\<rparr>
                            else players s ! p) [0..<MAX_PLAYERS],
        player_count := player_count s - int (length (filter (send_fails fails s) [0..<MAX_PLAYERS]))\<rparr>,
      concat (map (delivery fails s (state_msg s)) [0..<MAX_PLAYERS]))"
proof -
  have "map (\<lambda>p. if p < MAX_PLAYERS \<and> send_fails fails s p
                            then (players s ! p)\<lparr>socket_fd := - 1, active := 0\<rparr>
                            else players s ! p) [0..<MAX_PLAYERS]
      = map (\<lambda>p. if send_fails fails s p
                            then (players s ! p)\<lparr>socket_fd := - 1, active := 0\<rparr>
                            else players s ! p) [0..<MAX_PLAYERS]"
    by (rule map_cong) auto
  then show ?thesis
    unfolding broadcast_state_locked_def
    using deliver_fold_aux[of MAX_PLAYERS s fails "state_msg s" "[]"] assms by simp
qed

lemma broadcast_length:
  "length (players s) = MAX_PLAYERS \<Longrightarrow>
   length (players (fst (broadcast_state_locked fails s))) = MAX_PLAYERS"
  by (simp add: broadcast_closed_form)

lemma broadcast_obstacles:
  "length (players s) = MAX_PLAYERS \<Longrightarrow>
   obstacles (fst (broadcast_state_locked fails s)) = obstacles s"
  by (simp add: broadcast_closed_form)

lemma broadcast_nth:
  "length (players s) = MAX_PLAYERS \<Longrightarrow> p < MAX_PLAYERS \<Longrightarrow>
   players (fst (broadcast_state_locked fails s)) ! p =
     (if send_fails fails s p then (players s ! p)\<lparr>socket_fd := - 1, active := 0\<rparr>
      else players s ! p)"
  by (simp add: broadcast_closed_form del: upt_Suc)

lemma broadcast_count:
  "length (players s) = MAX_PLAYERS \<Longrightarrow>
   player_count (fst (broadcast_state_locked fails s)) =
     player_count s - int (card {p. p < MAX_PLAYERS \<and> send_fails fails s p})"
proof -
  assume len: "length (players s) = MAX_PLAYERS"
  have "card {p. p < MAX_PLAYERS \<and> send_fails fails s p}
      = card (set (filter (send_fails fails s) [0..<MAX_PLAYERS]))"
    by (rule arg_cong[where f = card]) auto
  also have "\<dots> = length (filter (send_fails fails s) [0..<MAX_PLAYERS])"
    by (rule distinct_card) simp
  finally show ?thesis using len by (simp add: broadcast_closed_form)
qed

lemma broadcast_events:
  "length (players s) = MAX_PLAYERS \<Longrightarrow>
   snd (broadcast_state_locked fails s) = concat (map (delivery fails s (state_msg s)) [0..<MAX_PLAYERS])"
  by (simp add: broadcast_closed_form)

text \<open>
  Claim C8. In a broadcast pass every occupied slot to which sending fails is freed as
  by \<open>remove_player\<close> (socket released, \<open>active = 0\<close>, counter decremented), no other slot
  changes, every slot gets at most one delivery, all of the same snapshot (the one
  rendered before the pass), and the pass always returns.
\<close>

theorem broadcast_prunes_failed_slots:
  assumes "wf_state s"
  shows "length (players (fst (broadcast_state_locked fails s))) = MAX_PLAYERS
    \<and> obstacles (fst (broadcast_state_locked fails s)) = obstacles s
    \<and> (\<forall>p<MAX_PLAYERS. players (fst (broadcast_state_locked fails s)) ! p =
          (if send_fails fails s p then players (remove_player p s) ! p else players s ! p))
    \<and> player_count (fst (broadcast_state_locked fails s)) =
          player_count s - int (card {p. p < MAX_PLAYERS \<and> send_fails fails s p})
    \<and> snd (broadcast_state_locked fails s) =
          concat (map (delivery fails s (state_msg s)) [0..<MAX_PLAYERS])"
proof -
  have len: "length (players s) = MAX_PLAYERS" using assms by (simp add: wf_state_def)
  have "players (fst (broadcast_state_locked fails s)) ! p =
          (if send_fails fails s p then players (remove_player p s) ! p else players s ! p)"
    if "p < MAX_PLAYERS" for p
    using broadcast_nth[OF len that, of fails] len that by (simp add: remove_player_def)
  then show ?thesis
    using broadcast_length[OF len] broadcast_obstacles[OF len] broadcast_count[OF len]
      broadcast_events[OF len] by blast
qed

theorem broadcast_prunes_failed_slots_witness:
  "wf_state duel
   \<and> players (fst (broadcast_state_locked (fails_only 1) duel)) ! 0 = players duel ! 0
   \<and> players (fst (broadcast_state_locked (fails_only 1) duel)) ! 1 =
       \<lparr>symbol = CHR ''B'', row = 0, col = 2, hp = 100, socket_fd = - 1, active = 0\<rparr>
   \<and> player_count (fst (broadcast_state_locked (fails_only 1) duel)) = 1
   \<and> snd (broadcast_state_locked (fails_only 1) duel) =
       [Send 10 (state_msg duel), Send 11 (state_msg duel), Close 11]"
proof -
  note res = broadcast_prunes_failed_slots[OF wf_duel, of "fails_only 1"]
  have slots: "\<forall>p<MAX_PLAYERS. players (fst (broadcast_state_locked (fails_only 1) duel)) ! p =
          (if send_fails (fails_only 1) duel p then players (remove_player p duel) ! p
           else players duel ! p)"
    and count: "player_count (fst (broadcast_state_locked (fails_only 1) duel)) =
          player_count duel - int (card {p. p < MAX_PLAYERS \<and> send_fails (fails_only 1) duel p})"
    and events: "snd (broadcast_state_locked (fails_only 1) duel) =
          concat (map (delivery (fails_only 1) duel (state_msg duel)) [0..<MAX_PLAYERS])"
    using res by blast+
  have "players (fst (broadcast_state_locked (fails_only 1) duel)) ! 0 = players duel ! 0"
    "players (fst (broadcast_state_locked (fails_only 1) duel)) ! 1 =
       \<lparr>symbol = CHR ''B'', row = 0, col = 2, hp = 100, socket_fd = - 1, active = 0\<rparr>"
    using slots[unfolded all_less_4]
    by (simp_all add: send_fails_def fails_only_def remove_player_def duel_def)
  moreover have "player_count (fst (broadcast_state_locked (fails_only 1) duel)) = 1"
    unfolding count card_slots
    by (simp add: slots_list send_fails_def fails_only_def duel_def)
  moreover have "snd (broadcast_state_locked (fails_only 1) duel) =
       [Send 10 (state_msg duel), Send 11 (state_msg duel), Close 11]"
    unfolding events
    by (simp add: slots_list delivery_def fails_only_def) (simp add: duel_def)
  ultimately show ?thesis using wf_duel by blast
qed

subsection \<open>MOVE\<close>

lemma cell_taken_iff:
  "cell_taken s idx r c \<longleftrightarrow>
     (\<exists>q<MAX_PLAYERS. q \<noteq> idx \<and> active (players s ! q) \<noteq> 0 \<and>
        row (players s ! q) = r \<and> col (players s ! q) = c)"
  unfolding cell_taken_def list_ex_iff by auto

lemma set_position_nth:
  "idx < length (players s) \<Longrightarrow> q < length (players s) \<Longrightarrow>
   players (set_position idx r c s) ! q =
     (if q = idx then (players s ! idx)\<lparr>row := r, col := c\<rparr> else players s ! q)"
  by (simp add: set_position_def nth_list_update)

lemma set_position_simps:
  "length (players (set_position idx r c s)) = length (players s)"
  "obstacles (set_position idx r c s) = obstacles s"
  "player_count (set_position idx r c s) = player_count s"
  by (simp_all add: set_position_def)

lemma send_fails_set_position:
  "idx < length (players s) \<Longrightarrow> q < length (players s) \<Longrightarrow>
   send_fails fails (set_position idx r c s) q = send_fails fails s q"
  by (simp add: send_fails_def set_position_nth)

text \<open>
  What a MOVE does once the thread has read \<open>seenR\<close> and \<open>seenC\<close>. A direction UP, DOWN,
  LEFT or RIGHT gives the target by its offset from the position read. A target out of
  bounds, on an obstacle or on the cell of another active slot leaves the state as it is
  and sends one message to the caller only. Otherwise the command is one broadcast pass on
  the state in which the actor stands on the target: the actor's position is the only one
  that changes (a broadcast never changes a position, health or symbol).
\<close>

lemma move_resolution:
  assumes wf: "wf_state s" and idx: "idx < MAX_PLAYERS"
    and kw: "strncasecmp_eq (c_line buf) ''MOVE'' 4"
    and dir: "map c_toupper (scan_token (drop 4 (c_line buf))) = d"
    and d: "d = ''UP'' \<or> d = ''DOWN'' \<or> d = ''LEFT'' \<or> d = ''RIGHT''"
    and tr: "tr = seenR + (if d = ''UP'' then - 1 else if d = ''DOWN'' then 1 else 0)"
    and tc: "tc = seenC + (if d = ''LEFT'' then - 1 else if d = ''RIGHT'' then 1 else 0)"
  shows "(tr < 0 \<or> GRID_SIZE \<le> tr \<or> tc < 0 \<or> GRID_SIZE \<le> tc \<longrightarrow>
           client_command idx fd fails buf seenR seenC s = (s, [Send fd msg_out_of_bounds], False))
    \<and> (0 \<le> tr \<and> tr < GRID_SIZE \<and> 0 \<le> tc \<and> tc < GRID_SIZE \<and> obstacle_at s tr tc = 1 \<longrightarrow>
           client_command idx fd fails buf seenR seenC s = (s, [Send fd msg_obstacle], False))
    \<and> (0 \<le> tr \<and> tr < GRID_SIZE \<and> 0 \<le> tc \<and> tc < GRID_SIZE \<and> obstacle_at s tr tc \<noteq> 1 \<and>
         (\<exists>q<MAX_PLAYERS. q \<noteq> idx \<and> active (players s ! q) \<noteq> 0 \<and>
            row (players s ! q) = tr \<and> col (players s ! q) = tc) \<longrightarrow>
           client_command idx fd fails buf seenR seenC s = (s, [Send fd msg_occupied], False))
    \<and> (0 \<le> tr \<and> tr < GRID_SIZE \<and> 0 \<le> tc \<and> tc < GRID_SIZE \<and> obstacle_at s tr tc \<noteq> 1 \<and>
         \<not> (\<exists>q<MAX_PLAYERS. q \<noteq> idx \<and> active (players s ! q) \<noteq> 0 \<and>
            row (players s ! q) = tr \<and> col (players s ! q) = tc) \<longrightarrow>
           client_command idx fd fails buf seenR seenC s =
             (fst (broadcast_state_locked fails (set_position idx tr tc s)),
              snd (broadcast_state_locked fails (set_position idx tr tc s)), False)
         \<and> (tr, tc) \<noteq> (seenR, seenC)
         \<and> (\<forall>q<MAX_PLAYERS.
              row (players (fst (client_command idx fd fails buf seenR seenC s)) ! q) =
                (if q = idx then tr else row (players s ! q)) \<and>
              col (players (fst (client_command idx fd fails buf seenR seenC s)) ! q) =
                (if q = idx then tc else col (players s ! q)) \<and>
              hp (players (fst (client_command idx fd fails buf seenR seenC s)) ! q) = hp (players s ! q) \<and>
              symbol (players (fst (client_command idx fd fails buf seenR seenC s)) ! q) = symbol (players s ! q)))"
proof -
  have len: "length (players s) = MAX_PLAYERS" using wf by (simp add: wf_state_def)
  have cmd: "client_command idx fd fails buf seenR seenC s =
      (fst (move_locked idx fd fails tr tc s), snd (move_locked idx fd fails tr tc s), False)"
    using kw dir d tr tc
    by (auto simp: client_command_def handle_move_def Let_def split: prod.splits)
  have len': "length (players (set_position idx tr tc s)) = MAX_PLAYERS"
    using len by (simp add: set_position_simps)
  have pos: "(tr, tc) \<noteq> (seenR, seenC)"
    using d tr tc by auto
  have nth: "players (fst (broadcast_state_locked fails (set_position idx tr tc s))) ! q =
      (if send_fails fails s q
       then (players (set_position idx tr tc s) ! q)\<lparr>socket_fd := - 1, active := 0\<rparr>
       else players (set_position idx tr tc s) ! q)" if "q < MAX_PLAYERS" for q
    using broadcast_nth[OF len' that, of fails] send_fails_set_position[of idx s q fails tr tc]
      len idx that by simp
  show ?thesis
    unfolding cmd
    using pos nth idx len
    by (auto simp: move_locked_def cell_taken_iff set_position_nth)
qed

subsection \<open>ATTACK\<close>

lemma adjacent_iff:
  "adjacent aR aC p \<longleftrightarrow> \<bar>row p - aR\<bar> + \<bar>col p - aC\<bar> = 1"
  by (auto simp: adjacent_def Let_def)

lemma attack_target_step:
  "attack_target idx aR aC q (s, out, hit) =
     (if active (players s ! q) \<noteq> 0 \<and> q \<noteq> idx \<and> adjacent aR aC (players s ! q)
      then (s\<lparr>players := (players s)[q := struck (players s ! q)],
              player_count := player_count s - (if hp (players s ! q) \<le> DAMAGE then 1 else 0)\<rparr>,
            out @ (if hp (players s ! q) \<le> DAMAGE then [Close (socket_fd (players s ! q))] else []),
            True)
      else (s, out, hit))"
  by (simp add: attack_target_def struck_def Let_def)

lemma attack_fold_aux:
  assumes "distinct qs" and "\<forall>q\<in>set qs. q < length (players s)"
  shows "fold (attack_target idx aR aC) qs (s, out, hit) =
     (s\<lparr>players := map (\<lambda>q. if q \<in> set qs \<and> active (players s ! q) \<noteq> 0 \<and> q \<noteq> idx \<and>
                               adjacent aR aC (players s ! q)
                            then struck (players s ! q) else players s ! q)
                     [0..<length (players s)],
        player_count := player_count s - int (length (filter (\<lambda>q. active (players s ! q) \<noteq> 0 \<and>
           q \<noteq> idx \<and> adjacent aR aC (players s ! q) \<and> hp (players s ! q) \<le> DAMAGE) qs))\<rparr>,
      out @ map (\<lambda>q. Close (socket_fd (players s ! q))) (filter (\<lambda>q. active (players s ! q) \<noteq> 0 \<and>
           q \<noteq> idx \<and> adjacent aR aC (players s ! q) \<and> hp (players s ! q) \<le> DAMAGE) qs),
      hit \<or> (\<exists>q\<in>set qs. active (players s ! q) \<noteq> 0 \<and> q \<noteq> idx \<and>
                               adjacent aR aC (players s ! q)))"
  using assms
proof (induction qs arbitrary: s out hit)
  case Nil
  then show ?case by (simp add: map_nth)
next
  case (Cons q qs)
  let ?t = "\<lambda>s q. active (players s ! q) \<noteq> 0 \<and> q \<noteq> idx \<and> adjacent aR aC (players s ! q)"
  have q: "q < length (players s)" "q \<notin> set qs" "distinct qs"
    and qs: "\<forall>p\<in>set qs. p < length (players s)"
    using Cons.prems by auto
  show ?case
  proof (cases "?t s q")
    case False
    then show ?thesis
      using Cons.IH[OF q(3) qs, of out hit] q
      by (auto simp: attack_target_step intro!: nth_equalityI)
  next
    case True
    let ?s1 = "s\<lparr>players := (players s)[q := struck (players s ! q)],
              player_count := player_count s - (if hp (players s ! q) \<le> DAMAGE then 1 else 0)\<rparr>"
    have same: "(players s)[q := struck (players s ! q)] ! p = players s ! p" if "p \<in> set qs" for p
      using that q by (auto simp: nth_list_update)
    have qs1: "\<forall>p\<in>set qs. p < length (players ?s1)" using qs by simp
    have pl: "map (\<lambda>p. if p \<in> set qs \<and> ?t ?s1 p then struck (players ?s1 ! p) else players ?s1 ! p)
                [0..<length (players ?s1)]
            = map (\<lambda>p. if p \<in> set (q # qs) \<and> ?t s p then struck (players s ! p) else players s ! p)
                [0..<length (players s)]"
      using True q same by (auto intro!: nth_equalityI simp: nth_list_update)
    let ?d = "\<lambda>s q. active (players s ! q) \<noteq> 0 \<and> q \<noteq> idx \<and> adjacent aR aC (players s ! q) \<and>
      hp (players s ! q) \<le> DAMAGE"
    have fl: "filter (?d ?s1) qs = filter (?d s) qs"
      by (rule filter_cong) (auto simp: same)
    have cl: "map (\<lambda>p. Close (socket_fd (players ?s1 ! p))) (filter (?d s) qs)
            = map (\<lambda>p. Close (socket_fd (players s ! p))) (filter (?d s) qs)"
      by (rule map_cong) (auto simp: same)
    have step: "attack_target idx aR aC q (s, out, hit) =
        (?s1, out @ (if hp (players s ! q) \<le> DAMAGE then [Close (socket_fd (players s ! q))] else []), True)"
      using True by (simp add: attack_target_step)
    show ?thesis
      using True
      apply (simp only: fold.simps o_apply step)
      apply (subst Cons.IH[OF q(3) qs1])
      apply (simp only: pl fl cl)
      apply (auto simp: conj_assoc)
      done
  qed
qed

lemma attack_scan_closed_form:
  assumes len: "length (players s) = MAX_PLAYERS" and "distinct qs" and "set qs \<subseteq> {..<MAX_PLAYERS}"
  shows "attack_scan idx qs s =
     (s\<lparr>players := map (\<lambda>q. if q \<in> set qs \<and> is_target s idx q
                            then struck (players s ! q) else players s ! q) [0..<MAX_PLAYERS],
        player_count := player_count s - int (length (filter (dies s idx) qs))\<rparr>,
      map (\<lambda>q. Close (socket_fd (players s ! q))) (filter (dies s idx) qs),
      \<exists>q\<in>set qs. is_target s idx q)"
proof -
  have t: "(active (players s ! q) \<noteq> 0 \<and> q \<noteq> idx \<and>
       adjacent (row (players s ! idx)) (col (players s ! idx)) (players s ! q)) = is_target s idx q" for q
    by (auto simp: is_target_def adjacent_iff)
  have d: "(active (players s ! q) \<noteq> 0 \<and> q \<noteq> idx \<and>
       adjacent (row (players s ! idx)) (col (players s ! idx)) (players s ! q) \<and>
       hp (players s ! q) \<le> DAMAGE) = dies s idx q" for q
    by (auto simp: dies_def is_target_def adjacent_iff)
  have bound: "\<forall>q\<in>set qs. q < length (players s)" using assms by auto
  show ?thesis
    unfolding attack_scan_def
    by (subst attack_fold_aux[OF assms(2) bound]) (simp add: t d len)
qed

lemma attack_scan_nth:
  assumes "length (players s) = MAX_PLAYERS" and "distinct qs" and "set qs \<subseteq> {..<MAX_PLAYERS}"
    and "q < MAX_PLAYERS"
  shows "players (fst (attack_scan idx qs s)) ! q =
     (if q \<in> set qs \<and> is_target s idx q then struck (players s ! q) else players s ! q)"
  using assms(4) by (simp add: attack_scan_closed_form[OF assms(1-3)] del: upt_Suc)

lemma attack_scan_simps:
  assumes "length (players s) = MAX_PLAYERS" and "distinct qs" and "set qs \<subseteq> {..<MAX_PLAYERS}"
  shows "length (players (fst (attack_scan idx qs s))) = MAX_PLAYERS"
    and "obstacles (fst (attack_scan idx qs s)) = obstacles s"
    and "player_count (fst (attack_scan idx qs s)) =
           player_count s - int (length (filter (dies s idx) qs))"
    and "fst (snd (attack_scan idx qs s)) =
           map (\<lambda>q. Close (socket_fd (players s ! q))) (filter (dies s idx) qs)"
    and "snd (snd (attack_scan idx qs s)) = (\<exists>q\<in>set qs. is_target s idx q)"
  by (simp_all add: attack_scan_closed_form[OF assms])

lemma card_filter_distinct:
  "distinct qs \<Longrightarrow> length (filter P qs) = card {q \<in> set qs. P q}"
  by (metis distinct_filter distinct_card set_filter)

text \<open>
  Claim C10. The scan of one ATTACK visits every slot once. Whatever the order \<open>qs\<close> in
  which the four slots are visited, the resulting state and the \<^verbatim>\<open>hit\<close> flag are those of
  the ascending scan of the code: every target loses \<open>DAMAGE\<close> once (its health becomes
  \<open>max 0 (hp - DAMAGE)\<close>), a slot is freed exactly when it is a target with health at most
  \<open>DAMAGE\<close>, and the counter drops by the number of such slots.
\<close>

theorem attack_scan_order_independent:
  assumes "wf_state s" and "distinct qs" and "set qs = {..<MAX_PLAYERS}"
  shows "fst (attack_scan idx qs s) = fst (attack_scan idx [0..<MAX_PLAYERS] s)
    \<and> snd (snd (attack_scan idx qs s)) = snd (snd (attack_scan idx [0..<MAX_PLAYERS] s))
    \<and> (\<forall>q<MAX_PLAYERS. players (fst (attack_scan idx qs s)) ! q =
          (if is_target s idx q then struck (players s ! q) else players s ! q))
    \<and> (\<forall>q<MAX_PLAYERS. hp (players (fst (attack_scan idx qs s)) ! q) =
          (if is_target s idx q then max 0 (hp (players s ! q) - DAMAGE) else hp (players s ! q)))
    \<and> (\<forall>q<MAX_PLAYERS. active (players (fst (attack_scan idx qs s)) ! q) =
          (if dies s idx q then 0 else active (players s ! q)))
    \<and> player_count (fst (attack_scan idx qs s)) =
          player_count s - int (card {q. q < MAX_PLAYERS \<and> dies s idx q})"
proof -
  have len: "length (players s) = MAX_PLAYERS" using assms by (simp add: wf_state_def)
  have sub: "set qs \<subseteq> {..<MAX_PLAYERS}" using assms by simp
  have asc: "distinct [0..<MAX_PLAYERS]" "set [0..<MAX_PLAYERS] \<subseteq> {..<MAX_PLAYERS}" by auto
  have pl: "map (\<lambda>q. if q \<in> set qs \<and> is_target s idx q then struck (players s ! q) else players s ! q)
              [0..<MAX_PLAYERS]
          = map (\<lambda>q. if q \<in> set [0..<MAX_PLAYERS] \<and> is_target s idx q then struck (players s ! q)
                     else players s ! q) [0..<MAX_PLAYERS]"
    by (rule map_cong) (use assms(3) in auto)
  have cnt: "length (filter (dies s idx) qs) = card {q. q < MAX_PLAYERS \<and> dies s idx q}"
    unfolding card_filter_distinct[OF assms(2)]
    by (rule arg_cong[where f = card]) (use assms(3) in auto)
  have cnt': "length (filter (dies s idx) [0..<MAX_PLAYERS]) = card {q. q < MAX_PLAYERS \<and> dies s idx q}"
    by (simp only: card_slots)
  have hit: "(\<exists>q\<in>set qs. is_target s idx q) = (\<exists>q\<in>set [0..<MAX_PLAYERS]. is_target s idx q)"
    using assms(3) by auto
  have eq: "fst (attack_scan idx qs s) = fst (attack_scan idx [0..<MAX_PLAYERS] s)"
    unfolding attack_scan_closed_form[OF len assms(2) sub] attack_scan_closed_form[OF len asc]
    by (simp only: fst_conv pl cnt cnt')
  have flag: "snd (snd (attack_scan idx qs s)) = snd (snd (attack_scan idx [0..<MAX_PLAYERS] s))"
    unfolding attack_scan_simps(5)[OF len assms(2) sub] attack_scan_simps(5)[OF len asc]
    by (rule hit)
  have nth: "players (fst (attack_scan idx qs s)) ! q =
          (if is_target s idx q then struck (players s ! q) else players s ! q)"
    if "q < MAX_PLAYERS" for q
    using attack_scan_nth[OF len assms(2) sub that, of idx] that assms(3) by simp
  have hp: "hp (players (fst (attack_scan idx qs s)) ! q) =
          (if is_target s idx q then max 0 (hp (players s ! q) - DAMAGE) else hp (players s ! q))"
    if "q < MAX_PLAYERS" for q
    unfolding nth[OF that] by (simp add: struck_def)
  have act: "active (players (fst (attack_scan idx qs s)) ! q) =
          (if dies s idx q then 0 else active (players s ! q))"
    if "q < MAX_PLAYERS" for q
    unfolding nth[OF that] by (simp add: struck_def dies_def)
  have count: "player_count (fst (attack_scan idx qs s)) =
          player_count s - int (card {q. q < MAX_PLAYERS \<and> dies s idx q})"
    unfolding attack_scan_simps(3)[OF len assms(2) sub] cnt ..
  show ?thesis using eq flag nth hp act count by blast
qed

text \<open>
  Claim C4. ATTACK strikes the other occupied slots at Manhattan distance 1 from the
  attacker and no other slot: a struck slot loses \<open>DAMAGE\<close>; one whose health drops to 0
  or below gets health 0 and is freed (socket closed, \<open>active = 0\<close>, counter decremented)
  in the state \<open>s1\<close> that the single broadcast pass then renders and delivers. With no
  target the state is unchanged and the only event is the reply to the attacker.
\<close>

theorem attack_resolution:
  assumes "wf_state s" and "idx < MAX_PLAYERS"
  shows "((\<forall>q<MAX_PLAYERS. \<not> is_target s idx q) \<longrightarrow>
            handle_attack idx fd fails s = (s, [Send fd msg_no_targets]))
    \<and> ((\<exists>q<MAX_PLAYERS. is_target s idx q) \<longrightarrow>
         (\<exists>s1. wf_state s1 \<and> obstacles s1 = obstacles s
            \<and> (\<forall>q<MAX_PLAYERS. players s1 ! q =
                  (if is_target s idx q then struck (players s ! q) else players s ! q))
            \<and> player_count s1 = player_count s - int (card {q. q < MAX_PLAYERS \<and> dies s idx q})
            \<and> handle_attack idx fd fails s =
                 (fst (broadcast_state_locked fails s1),
                  map (\<lambda>q. Close (socket_fd (players s ! q))) (filter (dies s idx) [0..<MAX_PLAYERS])
                    @ snd (broadcast_state_locked fails s1))
            \<and> (\<forall>q<MAX_PLAYERS. hp (players (fst (handle_attack idx fd fails s)) ! q) =
                  (if is_target s idx q then max 0 (hp (players s ! q) - DAMAGE)
                   else hp (players s ! q)))
            \<and> (\<forall>q<MAX_PLAYERS. dies s idx q \<longrightarrow>
                  active (players s1 ! q) = 0 \<and> socket_fd (players s1 ! q) = - 1 \<and>
                  active (players (fst (handle_attack idx fd fails s)) ! q) = 0 \<and>
                  socket_fd (players (fst (handle_attack idx fd fails s)) ! q) = - 1)))"
proof -
  have len: "length (players s) = MAX_PLAYERS" using assms by (simp add: wf_state_def)
  have asc: "distinct [0..<MAX_PLAYERS]" "set [0..<MAX_PLAYERS] \<subseteq> {..<MAX_PLAYERS}" by auto
  note cf = attack_scan_closed_form[OF len asc, of idx]
  let ?s1 = "fst (attack_scan idx [0..<MAX_PLAYERS] s)"
  have hit: "snd (snd (attack_scan idx [0..<MAX_PLAYERS] s)) = (\<exists>q<MAX_PLAYERS. is_target s idx q)"
    unfolding attack_scan_simps(5)[OF len asc] by auto
  have none: "handle_attack idx fd fails s = (s, [Send fd msg_no_targets])"
    if "\<forall>q<MAX_PLAYERS. \<not> is_target s idx q"
  proof -
    have no: "\<not> is_target s idx q" if "q \<in> set [0..<MAX_PLAYERS]" for q
      using that \<open>\<forall>q<MAX_PLAYERS. \<not> is_target s idx q\<close> by simp
    have "filter (dies s idx) [0..<MAX_PLAYERS] = []"
      unfolding filter_empty_conv using no by (auto simp: dies_def)
    moreover have "map (\<lambda>q. if q \<in> set [0..<MAX_PLAYERS] \<and> is_target s idx q
        then struck (players s ! q) else players s ! q) [0..<MAX_PLAYERS] = players s"
      using len no by (intro nth_equalityI) (auto simp del: upt_Suc)
    ultimately have "attack_scan idx [0..<MAX_PLAYERS] s = (s, [], False)"
      unfolding cf using no by (simp del: upt_Suc)
    then show ?thesis by (simp add: handle_attack_def)
  qed
  have some: "wf_state ?s1 \<and> obstacles ?s1 = obstacles s
            \<and> (\<forall>q<MAX_PLAYERS. players ?s1 ! q =
                  (if is_target s idx q then struck (players s ! q) else players s ! q))
            \<and> player_count ?s1 = player_count s - int (card {q. q < MAX_PLAYERS \<and> dies s idx q})
            \<and> handle_attack idx fd fails s =
                 (fst (broadcast_state_locked fails ?s1),
                  map (\<lambda>q. Close (socket_fd (players s ! q))) (filter (dies s idx) [0..<MAX_PLAYERS])
                    @ snd (broadcast_state_locked fails ?s1))
            \<and> (\<forall>q<MAX_PLAYERS. hp (players (fst (handle_attack idx fd fails s)) ! q) =
                  (if is_target s idx q then max 0 (hp (players s ! q) - DAMAGE)
                   else hp (players s ! q)))
            \<and> (\<forall>q<MAX_PLAYERS. dies s idx q \<longrightarrow>
                  active (players ?s1 ! q) = 0 \<and> socket_fd (players ?s1 ! q) = - 1 \<and>
                  active (players (fst (handle_attack idx fd fails s)) ! q) = 0 \<and>
                  socket_fd (players (fst (handle_attack idx fd fails s)) ! q) = - 1)"
    if "\<exists>q<MAX_PLAYERS. is_target s idx q"
  proof -
    have len1: "length (players ?s1) = MAX_PLAYERS"
      by (rule attack_scan_simps(1)[OF len asc])
    have obs1: "obstacles ?s1 = obstacles s"
      by (rule attack_scan_simps(2)[OF len asc])
    have wf1: "wf_state ?s1" using assms(1) len1 obs1 by (simp add: wf_state_def)
    have nth1: "players ?s1 ! q =
        (if is_target s idx q then struck (players s ! q) else players s ! q)" if "q < MAX_PLAYERS" for q
      using attack_scan_nth[OF len asc that, of idx] that by simp
    have cnt1: "player_count ?s1 = player_count s - int (card {q. q < MAX_PLAYERS \<and> dies s idx q})"
      unfolding attack_scan_simps(3)[OF len asc] card_slots ..
    have res: "handle_attack idx fd fails s =
        (fst (broadcast_state_locked fails ?s1),
         map (\<lambda>q. Close (socket_fd (players s ! q))) (filter (dies s idx) [0..<MAX_PLAYERS])
           @ snd (broadcast_state_locked fails ?s1))"
    proof (cases "attack_scan idx [0..<MAX_PLAYERS] s")
      case (fields x out h)
      have "x = ?s1" "h"
        and "out = map (\<lambda>q. Close (socket_fd (players s ! q))) (filter (dies s idx) [0..<MAX_PLAYERS])"
        using hit that attack_scan_simps(4)[OF len asc, of idx] fields by simp_all
      then show ?thesis
        unfolding handle_attack_def fields by (simp split: prod.splits)
    qed
    have hp: "hp (players (fst (handle_attack idx fd fails s)) ! q) =
        (if is_target s idx q then max 0 (hp (players s ! q) - DAMAGE) else hp (players s ! q))"
      if "q < MAX_PLAYERS" for q
      unfolding res fst_conv broadcast_nth[OF len1 that] nth1[OF that]
      by (simp add: struck_def)
    have freed: "active (players ?s1 ! q) = 0 \<and> socket_fd (players ?s1 ! q) = - 1 \<and>
        active (players (fst (handle_attack idx fd fails s)) ! q) = 0 \<and>
        socket_fd (players (fst (handle_attack idx fd fails s)) ! q) = - 1"
      if "q < MAX_PLAYERS" "dies s idx q" for q
      unfolding res fst_conv broadcast_nth[OF len1 that(1)] nth1[OF that(1)]
      using that(2) by (simp add: struck_def dies_def)
    show ?thesis using wf1 obs1 nth1 cnt1 res hp freed by blast
  qed
  show ?thesis using none some by blast
qed

theorem attack_resolution_witness:
  "wf_state after_kill
   \<and> \<not> is_target after_kill 0 0 \<and> \<not> is_target after_kill 0 1
   \<and> \<not> is_target after_kill 0 2 \<and> \<not> is_target after_kill 0 3
   \<and> handle_attack 0 10 never_fails after_kill = (after_kill, [Send 10 msg_no_targets])
   \<and> wf_state pileup \<and> (\<exists>q<MAX_PLAYERS. is_target pileup 0 q)
   \<and> hp (players (fst (handle_attack 0 10 never_fails pileup)) ! 0) = 100
   \<and> hp (players (fst (handle_attack 0 10 never_fails pileup)) ! 1) = 0
   \<and> hp (players (fst (handle_attack 0 10 never_fails pileup)) ! 2) = 0
   \<and> hp (players (fst (handle_attack 0 10 never_fails pileup)) ! 3) = 40
   \<and> active (players (fst (handle_attack 0 10 never_fails pileup)) ! 1) = 0
   \<and> active (players (fst (handle_attack 0 10 never_fails pileup)) ! 2) = 0"
proof -
  have i: "(0::nat) < MAX_PLAYERS" by simp
  have no: "\<forall>q<MAX_PLAYERS. \<not> is_target after_kill 0 q"
    by (simp add: all_less_4 is_target_def after_kill_def)
  have quiet: "handle_attack 0 10 never_fails after_kill = (after_kill, [Send 10 msg_no_targets])"
    using attack_resolution[OF wf_after_kill i, of 10 never_fails] no by blast
  have tg: "is_target pileup 0 0 = False" "is_target pileup 0 1" "is_target pileup 0 2" "is_target pileup 0 3"
    by (simp_all add: is_target_def pileup_def)
  have yes: "\<exists>q<MAX_PLAYERS. is_target pileup 0 q"
    using tg by (simp add: ex_less_4)
  have d: "dies pileup 0 1" "dies pileup 0 2"
    using tg by (simp_all add: dies_def) (simp_all add: pileup_def)
  from attack_resolution[OF wf_pileup i, of 10 never_fails] yes
  have hps: "\<forall>q<MAX_PLAYERS. hp (players (fst (handle_attack 0 10 never_fails pileup)) ! q) =
        (if is_target pileup 0 q then max 0 (hp (players pileup ! q) - DAMAGE)
         else hp (players pileup ! q))"
    and freed: "\<forall>q<MAX_PLAYERS. dies pileup 0 q \<longrightarrow>
        active (players (fst (handle_attack 0 10 never_fails pileup)) ! q) = 0"
    by blast+
  have "hp (players (fst (handle_attack 0 10 never_fails pileup)) ! 0) = 100"
    "hp (players (fst (handle_attack 0 10 never_fails pileup)) ! 1) = 0"
    "hp (players (fst (handle_attack 0 10 never_fails pileup)) ! 2) = 0"
    "hp (players (fst (handle_attack 0 10 never_fails pileup)) ! 3) = 40"
    using hps[unfolded all_less_4] tg by (simp_all add: pileup_def)
  moreover have "active (players (fst (handle_attack 0 10 never_fails pileup)) ! 1) = 0"
    "active (players (fst (handle_attack 0 10 never_fails pileup)) ! 2) = 0"
    using freed[unfolded all_less_4] d by simp_all
  ultimately show ?thesis using no[unfolded all_less_4] quiet yes wf_after_kill wf_pileup by blast
qed

theorem attack_scan_order_independent_witness:
  "wf_state pileup \<and> distinct [3, 1, 0, 2::nat] \<and> set [3, 1, 0, 2::nat] = {..<MAX_PLAYERS}
   \<and> fst (attack_scan 0 [3, 1, 0, 2] pileup) = fst (attack_scan 0 [0..<MAX_PLAYERS] pileup)
   \<and> hp (players (fst (attack_scan 0 [3, 1, 0, 2] pileup)) ! 3) = 40
   \<and> active (players (fst (attack_scan 0 [3, 1, 0, 2] pileup)) ! 1) = 0
   \<and> active (players (fst (attack_scan 0 [3, 1, 0, 2] pileup)) ! 2) = 0
   \<and> active (players (fst (attack_scan 0 [3, 1, 0, 2] pileup)) ! 3) = 1"
proof -
  have dist: "distinct [3, 1, 0, 2::nat]" by simp
  have all: "set [3, 1, 0, 2::nat] = {..<MAX_PLAYERS}" by auto
  have tg: "is_target pileup 0 1" "is_target pileup 0 2" "is_target pileup 0 3"
    by (simp_all add: is_target_def pileup_def)
  have d: "dies pileup 0 1" "dies pileup 0 2" "\<not> dies pileup 0 3"
    using tg by (simp_all add: dies_def) (simp_all add: pileup_def)
  note res = attack_scan_order_independent[OF wf_pileup dist all, of 0]
  have eq: "fst (attack_scan 0 [3, 1, 0, 2] pileup) = fst (attack_scan 0 [0..<MAX_PLAYERS] pileup)"
    and hps: "\<forall>q<MAX_PLAYERS. hp (players (fst (attack_scan 0 [3, 1, 0, 2] pileup)) ! q) =
          (if is_target pileup 0 q then max 0 (hp (players pileup ! q) - DAMAGE)
           else hp (players pileup ! q))"
    and act: "\<forall>q<MAX_PLAYERS. active (players (fst (attack_scan 0 [3, 1, 0, 2] pileup)) ! q) =
          (if dies pileup 0 q then 0 else active (players pileup ! q))"
    using res by blast+
  have "hp (players (fst (attack_scan 0 [3, 1, 0, 2] pileup)) ! 3) = 40"
    using hps[unfolded all_less_4] tg by (simp add: pileup_def)
  moreover have "active (players (fst (attack_scan 0 [3, 1, 0, 2] pileup)) ! 1) = 0"
    "active (players (fst (attack_scan 0 [3, 1, 0, 2] pileup)) ! 2) = 0"
    "active (players (fst (attack_scan 0 [3, 1, 0, 2] pileup)) ! 3) = 1"
    using act[unfolded all_less_4] d by (simp_all add: pileup_def)
  ultimately show ?thesis using eq dist all wf_pileup by blast
qed

subsection \<open>Parsing\<close>

lemma of_char_tolower:
  "(of_char (c_tolower x) :: nat) =
     (if 65 \<le> (of_char x :: nat) \<and> (of_char x :: nat) \<le> 90 then of_char x + 32 else of_char x)"
  by (simp add: c_tolower_def Let_def)

lemma of_char_toupper:
  "(of_char (c_toupper x) :: nat) =
     (if 97 \<le> (of_char x :: nat) \<and> (of_char x :: nat) \<le> 122 then of_char x - 32 else of_char x)"
proof -
  have "(of_char x :: nat) - 32 < 256"
    using nat_of_char_less_256[of x] by arith
  then show ?thesis by (simp add: c_toupper_def Let_def)
qed

lemma tolower_eq_iff_toupper_eq:
  "c_tolower x = c_tolower y \<longleftrightarrow> c_toupper x = c_toupper y"
proof -
  define a b where "a = (of_char x :: nat)" and "b = (of_char y :: nat)"
  have "c_tolower x = c_tolower y \<longleftrightarrow> (of_char (c_tolower x) :: nat) = of_char (c_tolower y)"
    by simp
  also have "\<dots> \<longleftrightarrow> (if 65 \<le> a \<and> a \<le> 90 then a + 32 else a) = (if 65 \<le> b \<and> b \<le> 90 then b + 32 else b)"
    unfolding of_char_tolower a_def b_def ..
  also have "\<dots> \<longleftrightarrow> (if 97 \<le> a \<and> a \<le> 122 then a - 32 else a) = (if 97 \<le> b \<and> b \<le> 122 then b - 32 else b)"
    by (auto split: if_splits)
  also have "\<dots> \<longleftrightarrow> (of_char (c_toupper x) :: nat) = of_char (c_toupper y)"
    unfolding of_char_toupper a_def b_def ..
  also have "\<dots> \<longleftrightarrow> c_toupper x = c_toupper y"
    by simp
  finally show ?thesis .
qed

lemma map_tolower_eq_iff:
  "map c_tolower a = map c_tolower b \<longleftrightarrow> map c_toupper a = map c_toupper b"
proof (induction a arbitrary: b)
  case Nil
  then show ?case by auto
next
  case (Cons x a)
  then show ?case by (cases b) (auto simp: tolower_eq_iff_toupper_eq)
qed

lemma strcasecmp_eq_upper:
  "map c_toupper b = b \<Longrightarrow> strcasecmp_eq a b \<longleftrightarrow> map c_toupper a = b"
  by (simp add: strcasecmp_eq_def map_tolower_eq_iff)

lemma strncasecmp_eq_upper:
  "map c_toupper b = b \<Longrightarrow> length b = n \<Longrightarrow>
   strncasecmp_eq a b n \<longleftrightarrow> map c_toupper (take n a) = b"
  by (simp add: strncasecmp_eq_def map_tolower_eq_iff)

lemma keywords_upper:
  "map c_toupper ''MOVE'' = ''MOVE''" "map c_toupper ''ATTACK'' = ''ATTACK''"
  "map c_toupper ''QUIT'' = ''QUIT''"
  by code_simp+

lemma keyword_tests:
  "strncasecmp_eq a ''MOVE'' 4 \<longleftrightarrow> map c_toupper (take 4 a) = ''MOVE''"
  "strcasecmp_eq a ''ATTACK'' \<longleftrightarrow> map c_toupper a = ''ATTACK''"
  "strcasecmp_eq a ''QUIT'' \<longleftrightarrow> map c_toupper a = ''QUIT''"
  using strncasecmp_eq_upper[OF keywords_upper(1), of 4 a]
    strcasecmp_eq_upper[OF keywords_upper(2), of a] strcasecmp_eq_upper[OF keywords_upper(3), of a]
  by simp_all

text \<open>
  Claim C6, as amended. A line that does not start with MOVE and is neither ATTACK nor QUIT
  (letter case ignored) is answered with the unknown-command message, to the caller only;
  the state is unchanged and nothing is broadcast. A line that starts with MOVE is
  answered by the MOVE branch, again to the caller only and with the state unchanged:
  with the usage message when no direction follows the keyword, and with the
  invalid-direction message when the direction is none of UP, DOWN, LEFT and RIGHT.
\<close>

theorem unknown_command_reply:
  "(map c_toupper (take 4 (c_line buf)) \<noteq> ''MOVE'' \<and> map c_toupper (c_line buf) \<noteq> ''ATTACK''
      \<and> map c_toupper (c_line buf) \<noteq> ''QUIT''
      \<longrightarrow> client_command idx fd fails buf seenR seenC s = (s, [Send fd msg_unknown], False))
   \<and> (map c_toupper (take 4 (c_line buf)) = ''MOVE'' \<and> scan_token (drop 4 (c_line buf)) = []
      \<longrightarrow> client_command idx fd fails buf seenR seenC s = (s, [Send fd msg_usage], False))
   \<and> (map c_toupper (take 4 (c_line buf)) = ''MOVE'' \<and> scan_token (drop 4 (c_line buf)) \<noteq> []
      \<and> map c_toupper (scan_token (drop 4 (c_line buf))) \<notin> {''UP'', ''DOWN'', ''LEFT'', ''RIGHT''}
      \<longrightarrow> client_command idx fd fails buf seenR seenC s = (s, [Send fd msg_invalid_direction], False))"
proof (intro conjI impI)
  assume "map c_toupper (take 4 (c_line buf)) \<noteq> ''MOVE'' \<and> map c_toupper (c_line buf) \<noteq> ''ATTACK''
      \<and> map c_toupper (c_line buf) \<noteq> ''QUIT''"
  then show "client_command idx fd fails buf seenR seenC s = (s, [Send fd msg_unknown], False)"
    unfolding client_command_def Let_def keyword_tests by simp
next
  assume "map c_toupper (take 4 (c_line buf)) = ''MOVE'' \<and> scan_token (drop 4 (c_line buf)) = []"
  then show "client_command idx fd fails buf seenR seenC s = (s, [Send fd msg_usage], False)"
    unfolding client_command_def Let_def keyword_tests by (simp add: handle_move_def)
next
  assume "map c_toupper (take 4 (c_line buf)) = ''MOVE'' \<and> scan_token (drop 4 (c_line buf)) \<noteq> []
      \<and> map c_toupper (scan_token (drop 4 (c_line buf))) \<notin> {''UP'', ''DOWN'', ''LEFT'', ''RIGHT''}"
  then show "client_command idx fd fails buf seenR seenC s = (s, [Send fd msg_invalid_direction], False)"
    unfolding client_command_def Let_def keyword_tests by (simp add: handle_move_def)
qed

theorem unknown_command_reply_witness:
  "map c_toupper (take 4 (c_line ''attack now'')) \<noteq> ''MOVE''
   \<and> map c_toupper (c_line ''attack now'') \<noteq> ''ATTACK''
   \<and> map c_toupper (c_line ''attack now'') \<noteq> ''QUIT''
   \<and> client_command 0 10 never_fails ''attack now'' 0 1 duel = (duel, [Send 10 msg_unknown], False)
   \<and> map c_toupper (take 4 (c_line ''move'')) = ''MOVE'' \<and> scan_token (drop 4 (c_line ''move'')) = []
   \<and> client_command 0 10 never_fails ''move'' 0 1 duel = (duel, [Send 10 msg_usage], False)
   \<and> map c_toupper (take 4 (c_line ''Move north'')) = ''MOVE''
   \<and> map c_toupper (scan_token (drop 4 (c_line ''Move north''))) = ''NORTH''
   \<and> client_command 0 10 never_fails ''Move north'' 0 1 duel = (duel, [Send 10 msg_invalid_direction], False)"
proof -
  have a: "map c_toupper (take 4 (c_line ''attack now'')) \<noteq> ''MOVE''"
    "map c_toupper (c_line ''attack now'') \<noteq> ''ATTACK''"
    "map c_toupper (c_line ''attack now'') \<noteq> ''QUIT''"
    by code_simp+
  have b: "map c_toupper (take 4 (c_line ''move'')) = ''MOVE''" "scan_token (drop 4 (c_line ''move'')) = []"
    by code_simp+
  have c: "map c_toupper (take 4 (c_line ''Move north'')) = ''MOVE''"
    "map c_toupper (scan_token (drop 4 (c_line ''Move north''))) = ''NORTH''"
    by code_simp+
  have c': "scan_token (drop 4 (c_line ''Move north'')) \<noteq> []"
    "map c_toupper (scan_token (drop 4 (c_line ''Move north''))) \<notin> {''UP'', ''DOWN'', ''LEFT'', ''RIGHT''}"
    using c(2) by auto
  have "client_command 0 10 never_fails ''attack now'' 0 1 duel = (duel, [Send 10 msg_unknown], False)"
    using unknown_command_reply[of "''attack now''" 0 10 never_fails 0 1 duel] a by blast
  moreover have "client_command 0 10 never_fails ''move'' 0 1 duel = (duel, [Send 10 msg_usage], False)"
    using unknown_command_reply[of "''move''" 0 10 never_fails 0 1 duel] b by blast
  moreover have "client_command 0 10 never_fails ''Move north'' 0 1 duel
      = (duel, [Send 10 msg_invalid_direction], False)"
    using unknown_command_reply[of "''Move north''" 0 10 never_fails 0 1 duel] c(1) c' by blast
  ultimately show ?thesis using a b c by blast
qed

text \<open>
  The claim as stated fails on lines that start with MOVE and are no MOVE command of the
  grammar: the MOVE branch answers them, with the usage message when the direction is
  missing and with the invalid-direction message when it is not one of the four.
\<close>

theorem move_prefix_counterexample:
  "client_command 0 10 never_fails ''MOVE'' 0 1 duel = (duel, [Send 10 msg_usage], False)
   \<and> client_command 0 10 never_fails ''MOVE NORTH'' 0 1 duel = (duel, [Send 10 msg_invalid_direction], False)
   \<and> msg_usage \<noteq> msg_unknown \<and> msg_invalid_direction \<noteq> msg_unknown"
  by code_simp

subsection \<open>Leaving\<close>

lemma quit_line_tests:
  "c_line ''QUIT'' = ''QUIT''" "\<not> strncasecmp_eq ''QUIT'' ''MOVE'' 4"
  "\<not> strcasecmp_eq ''QUIT'' ''ATTACK''" "strcasecmp_eq ''QUIT'' ''QUIT''"
  by code_simp+

lemma client_command_quit:
  "client_command idx fd fails ''QUIT'' seenR seenC s =
     (fst (handle_quit idx fails s), snd (handle_quit idx fails s), True)"
  using quit_line_tests by (simp add: client_command_def Let_def case_prod_beta)

lemma remove_player_simps:
  "length (players (remove_player p s)) = length (players s)"
  "obstacles (remove_player p s) = obstacles s"
  "player_count (remove_player p s) = player_count s - 1"
  by (simp_all add: remove_player_def)

lemma handle_quit_count:
  assumes "wf_state s"
  shows "player_count (fst (handle_quit idx fails s)) =
     player_count s - 1 - int (card {p. p < MAX_PLAYERS \<and> send_fails fails (remove_player idx s) p})"
proof -
  have len: "length (players (remove_player idx s)) = MAX_PLAYERS"
    using assms by (simp add: wf_state_def remove_player_simps)
  show ?thesis
    using broadcast_count[OF len, of fails]
    by (simp add: handle_quit_def remove_player_simps case_prod_beta)
qed

text \<open>
  Claim C3 fails on the code for QUIT. On a slot that is already free, the disconnect
  path and the final cleanup leave the state as it is, but QUIT decrements the counter
  once more: lines 241-244 do not test \<^verbatim>\<open>active\<close>, as lines 121 and 258 do.
\<close>

theorem quit_on_free_slot_decrements:
  assumes "wf_state s" and "idx < MAX_PLAYERS" and "active (players s ! idx) = 0"
  shows "player_count (fst (client_command idx fd fails ''QUIT'' seenR seenC s)) < player_count s
    \<and> client_disconnect idx fails s = (s, [])
    \<and> fst (client_cleanup idx fd s) = s"
proof -
  have "player_count (fst (client_command idx fd fails ''QUIT'' seenR seenC s)) < player_count s"
    unfolding client_command_quit fst_conv handle_quit_count[OF assms(1)] by simp
  then show ?thesis
    using assms(3) by (simp add: client_disconnect_def client_cleanup_def)
qed

theorem quit_on_free_slot_decrements_witness:
  "wf_state after_kill \<and> active (players after_kill ! 1) = 0 \<and> player_count after_kill = 1
   \<and> player_count (fst (client_command 1 11 never_fails ''QUIT'' 0 2 after_kill)) < 1
   \<and> player_count (fst (client_command 1 11 never_fails ''QUIT'' 0 2 after_kill)) = 0
   \<and> players (fst (client_command 1 11 never_fails ''QUIT'' 0 2 after_kill)) = players after_kill
   \<and> client_disconnect 1 never_fails after_kill = (after_kill, [])"
proof -
  have i: "(1::nat) < MAX_PLAYERS" by simp
  have free: "active (players after_kill ! 1) = 0" and cnt: "player_count after_kill = 1"
    by (simp_all add: after_kill_def)
  have "player_count (fst (client_command 1 11 never_fails ''QUIT'' 0 2 after_kill)) = 0"
    "players (fst (client_command 1 11 never_fails ''QUIT'' 0 2 after_kill)) = players after_kill"
    by code_simp+
  then show ?thesis
    using quit_on_free_slot_decrements[OF wf_after_kill i free, of 11 never_fails] free cnt wf_after_kill
    by simp
qed

subsection \<open>The invariant: steps that only free slots\<close>

lemma nth_update_total:
  "xs[i := x] ! j = (if i = j \<and> i < length xs then x else xs ! j)"
  by (cases "i < length xs") (auto simp: nth_list_update list_update_beyond)

lemma shrinks_refl: "shrinks s s"
  by (simp add: shrinks_def)

lemma shrinks_trans: "shrinks s t \<Longrightarrow> shrinks t u \<Longrightarrow> shrinks s u"
  by (auto simp: shrinks_def)

lemma shrinks_wf: "wf_state s \<Longrightarrow> shrinks s s' \<Longrightarrow> wf_state s'"
  by (simp add: shrinks_def wf_state_def)

lemma shrinks_positions_ok:
  assumes "positions_ok s" and "shrinks s s'"
  shows "positions_ok s'"
  unfolding positions_ok_def
proof (intro allI impI)
  fix i assume i: "i < MAX_PLAYERS" and a: "active (players s' ! i) \<noteq> 0"
  have same: "row (players s' ! p) = row (players s ! p)" "col (players s' ! p) = col (players s ! p)"
    and act: "active (players s' ! p) \<noteq> 0 \<Longrightarrow> active (players s ! p) \<noteq> 0"
    if "p < MAX_PLAYERS" for p
    using assms(2) that by (auto simp: shrinks_def)
  have obs: "obstacle_at s' r c = obstacle_at s r c" for r c
    using assms(2) by (simp add: shrinks_def obstacle_at_def)
  from assms(1) i act[OF i a]
  have old: "0 \<le> row (players s ! i) \<and> row (players s ! i) < GRID_SIZE \<and>
     0 \<le> col (players s ! i) \<and> col (players s ! i) < GRID_SIZE \<and>
     obstacle_at s (row (players s ! i)) (col (players s ! i)) \<noteq> 1 \<and>
     (\<forall>j<MAX_PLAYERS. j \<noteq> i \<and> active (players s ! j) \<noteq> 0 \<longrightarrow>
        \<not> (row (players s ! j) = row (players s ! i) \<and> col (players s ! j) = col (players s ! i)))"
    unfolding positions_ok_def by blast
  show "0 \<le> row (players s' ! i) \<and> row (players s' ! i) < GRID_SIZE \<and>
     0 \<le> col (players s' ! i) \<and> col (players s' ! i) < GRID_SIZE \<and>
     obstacle_at s' (row (players s' ! i)) (col (players s' ! i)) \<noteq> 1 \<and>
     (\<forall>j<MAX_PLAYERS. j \<noteq> i \<and> active (players s' ! j) \<noteq> 0 \<longrightarrow>
        \<not> (row (players s' ! j) = row (players s' ! i) \<and> col (players s' ! j) = col (players s' ! i)))"
    using old same act i by (auto simp: obs)
qed

lemma shrinks_broadcast:
  assumes "wf_state s"
  shows "shrinks s (fst (broadcast_state_locked fails s))"
proof -
  have len: "length (players s) = MAX_PLAYERS" using assms by (simp add: wf_state_def)
  show ?thesis
    unfolding shrinks_def
    using broadcast_length[OF len, of fails] broadcast_obstacles[OF len, of fails] len
    by (auto simp: broadcast_nth[OF len])
qed

lemma shrinks_remove_player:
  "shrinks s (remove_player p s)"
  by (auto simp: shrinks_def remove_player_def nth_update_total)

lemma shrinks_attack_scan:
  assumes "wf_state s"
  shows "shrinks s (fst (attack_scan idx [0..<MAX_PLAYERS] s))"
proof -
  have len: "length (players s) = MAX_PLAYERS" using assms by (simp add: wf_state_def)
  have asc: "distinct [0..<MAX_PLAYERS]" "set [0..<MAX_PLAYERS] \<subseteq> {..<MAX_PLAYERS}" by auto
  show ?thesis
    unfolding shrinks_def
    using attack_scan_simps(1,2)[OF len asc, of idx] len
    by (auto simp: attack_scan_nth[OF len asc] struck_def)
qed

lemma shrinks_handle_attack:
  assumes "wf_state s"
  shows "shrinks s (fst (handle_attack idx fd fails s))"
proof (cases "attack_scan idx [0..<MAX_PLAYERS] s")
  case (fields s1 out hit)
  have s1: "shrinks s s1" using shrinks_attack_scan[OF assms, of idx] fields by simp
  then have "wf_state s1" using assms by (rule shrinks_wf[rotated])
  then have "shrinks s1 (fst (broadcast_state_locked fails s1))" by (rule shrinks_broadcast)
  then have "shrinks s (fst (broadcast_state_locked fails s1))" using s1 by (rule shrinks_trans[rotated])
  then show ?thesis using s1 by (simp add: handle_attack_def fields case_prod_beta)
qed

lemma shrinks_free_and_broadcast:
  assumes "wf_state s"
  shows "shrinks s (fst (broadcast_state_locked fails (remove_player p s)))"
proof -
  have "wf_state (remove_player p s)" using assms shrinks_remove_player by (rule shrinks_wf)
  then have "shrinks (remove_player p s) (fst (broadcast_state_locked fails (remove_player p s)))"
    by (rule shrinks_broadcast)
  then show ?thesis using shrinks_remove_player shrinks_trans by blast
qed

lemma shrinks_handle_quit:
  "wf_state s \<Longrightarrow> shrinks s (fst (handle_quit idx fails s))"
  using shrinks_free_and_broadcast[of s fails idx] by (simp add: handle_quit_def case_prod_beta)

lemma shrinks_client_disconnect:
  "wf_state s \<Longrightarrow> shrinks s (fst (client_disconnect idx fails s))"
  using shrinks_free_and_broadcast[of s fails idx]
  by (simp add: client_disconnect_def case_prod_beta shrinks_refl)

lemma shrinks_client_cleanup:
  "shrinks s (fst (client_cleanup idx fd s))"
  by (auto simp: client_cleanup_def shrinks_def nth_update_total)

lemma shrinks_spawn_failed:
  "shrinks s (fst (spawn_failed idx s))"
  by (simp add: spawn_failed_def shrinks_remove_player)

subsection \<open>The invariant: steps that place a player\<close>

lemma positions_ok_set_position:
  assumes wf: "wf_state s" and ok: "positions_ok s" and idx: "idx < MAX_PLAYERS"
    and r: "0 \<le> r" "r < GRID_SIZE" and c: "0 \<le> c" "c < GRID_SIZE"
    and free: "obstacle_at s r c \<noteq> 1" and alone: "\<not> cell_taken s idx r c"
  shows "positions_ok (set_position idx r c s)"
proof -
  have len: "length (players s) = MAX_PLAYERS" using wf by (simp add: wf_state_def)
  have nth: "players (set_position idx r c s) ! q =
      (if q = idx then (players s ! idx)\<lparr>row := r, col := c\<rparr> else players s ! q)"
    if "q < MAX_PLAYERS" for q
    using set_position_nth[of idx s q r c] len idx that by simp
  have obs: "obstacle_at (set_position idx r c s) x y = obstacle_at s x y" for x y
    by (simp add: obstacle_at_def set_position_simps)
  have nobody: "\<not> (row (players s ! q) = r \<and> col (players s ! q) = c)"
    if "q < MAX_PLAYERS" "q \<noteq> idx" "active (players s ! q) \<noteq> 0" for q
    using alone that unfolding cell_taken_iff by blast
  show ?thesis
    unfolding positions_ok_def
  proof (intro allI impI)
    fix i assume i: "i < MAX_PLAYERS" and a: "active (players (set_position idx r c s) ! i) \<noteq> 0"
    show "0 \<le> row (players (set_position idx r c s) ! i) \<and>
       row (players (set_position idx r c s) ! i) < GRID_SIZE \<and>
       0 \<le> col (players (set_position idx r c s) ! i) \<and>
       col (players (set_position idx r c s) ! i) < GRID_SIZE \<and>
       obstacle_at (set_position idx r c s) (row (players (set_position idx r c s) ! i))
         (col (players (set_position idx r c s) ! i)) \<noteq> 1 \<and>
       (\<forall>j<MAX_PLAYERS. j \<noteq> i \<and> active (players (set_position idx r c s) ! j) \<noteq> 0 \<longrightarrow>
          \<not> (row (players (set_position idx r c s) ! j) = row (players (set_position idx r c s) ! i) \<and>
             col (players (set_position idx r c s) ! j) = col (players (set_position idx r c s) ! i)))"
    proof (cases "i = idx")
      case True
      then show ?thesis
        using r c free nobody i by (auto simp: nth obs)
    next
      case False
      then have ai: "active (players s ! i) \<noteq> 0" using a i by (simp add: nth)
      from ok i ai have old: "0 \<le> row (players s ! i) \<and> row (players s ! i) < GRID_SIZE \<and>
         0 \<le> col (players s ! i) \<and> col (players s ! i) < GRID_SIZE \<and>
         obstacle_at s (row (players s ! i)) (col (players s ! i)) \<noteq> 1 \<and>
         (\<forall>j<MAX_PLAYERS. j \<noteq> i \<and> active (players s ! j) \<noteq> 0 \<longrightarrow>
            \<not> (row (players s ! j) = row (players s ! i) \<and> col (players s ! j) = col (players s ! i)))"
        unfolding positions_ok_def by blast
      show ?thesis
        using False old nobody[OF i False ai] i by (auto simp: nth obs)
    qed
  qed
qed

lemma move_locked_ok:
  assumes "wf_state s" and "positions_ok s" and "idx < MAX_PLAYERS"
  shows "wf_state (fst (move_locked idx fd fails newR newC s))
    \<and> positions_ok (fst (move_locked idx fd fails newR newC s))"
proof (cases "newR < 0 \<or> newR \<ge> GRID_SIZE \<or> newC < 0 \<or> newC \<ge> GRID_SIZE \<or>
    obstacle_at s newR newC = 1 \<or> cell_taken s idx newR newC")
  case True
  then show ?thesis using assms by (auto simp: move_locked_def)
next
  case False
  let ?m = "set_position idx newR newC s"
  have ok: "positions_ok ?m"
    using positions_ok_set_position[OF assms(1,2,3), of newR newC] False by simp
  have wf: "wf_state ?m" using assms(1) by (simp add: wf_state_def set_position_simps)
  have sh: "shrinks ?m (fst (broadcast_state_locked fails ?m))" using wf by (rule shrinks_broadcast)
  have "move_locked idx fd fails newR newC s = broadcast_state_locked fails ?m"
    using False by (auto simp: move_locked_def)
  then show ?thesis
    using shrinks_wf[OF wf sh] shrinks_positions_ok[OF ok sh] by simp
qed

lemma client_command_ok:
  assumes "wf_state s" and "positions_ok s" and "idx < MAX_PLAYERS"
  shows "wf_state (fst (client_command idx fd fails buf seenR seenC s))
    \<and> positions_ok (fst (client_command idx fd fails buf seenR seenC s))"
proof -
  have mv: "wf_state (fst (handle_move idx fd fails l seenR seenC s)) \<and> positions_ok (fst (handle_move idx fd fails l seenR seenC s))"
    for l
    using move_locked_ok[OF assms] assms(1,2) by (simp add: handle_move_def Let_def)
  have at: "wf_state (fst (handle_attack idx fd fails s)) \<and> positions_ok (fst (handle_attack idx fd fails s))"
    using shrinks_handle_attack[OF assms(1), of idx fd fails] assms(1,2)
      shrinks_wf shrinks_positions_ok by blast
  have qu: "wf_state (fst (handle_quit idx fails s)) \<and> positions_ok (fst (handle_quit idx fails s))"
    using shrinks_handle_quit[OF assms(1), of idx fails] assms(1,2)
      shrinks_wf shrinks_positions_ok by blast
  show ?thesis
    using mv at qu assms(1,2) by (simp add: client_command_def Let_def case_prod_beta)
qed

lemma set_position_twice:
  "idx < length (players s) \<Longrightarrow>
   set_position idx r c (set_position idx r0 c0 s) = set_position idx r c s"
  by (simp add: set_position_def)

lemma spawn_position_Some:
  assumes "spawn_position rnd idx n s = Some y" and "idx < length (players s)"
  shows "\<exists>r c. 0 \<le> r \<and> r < GRID_SIZE \<and> 0 \<le> c \<and> c < GRID_SIZE \<and>
       fst y = set_position idx r c s \<and> \<not> blocked (fst y) idx"
proof -
  have "idx < length (players s) \<longrightarrow>
    (\<exists>r c. 0 \<le> r \<and> r < GRID_SIZE \<and> 0 \<le> c \<and> c < GRID_SIZE \<and>
       fst y = set_position idx r c s \<and> \<not> blocked (fst y) idx)"
  proof (rule spawn_position.raw_induct[where P = "\<lambda>rnd idx n s y.
      idx < length (players s) \<longrightarrow>
      (\<exists>r c. 0 \<le> r \<and> r < GRID_SIZE \<and> 0 \<le> c \<and> c < GRID_SIZE \<and>
         fst y = set_position idx r c s \<and> \<not> blocked (fst y) idx)", OF _ assms(1)])
    fix f :: "(nat \<Rightarrow> nat) \<Rightarrow> nat \<Rightarrow> nat \<Rightarrow> game_state \<Rightarrow> (game_state \<times> nat) option"
    fix rnd idx n s y
    assume IH: "\<And>rnd idx n s y. f rnd idx n s = Some y \<Longrightarrow>
        idx < length (players s) \<longrightarrow>
        (\<exists>r c. 0 \<le> r \<and> r < GRID_SIZE \<and> 0 \<le> c \<and> c < GRID_SIZE \<and>
           fst y = set_position idx r c s \<and> \<not> blocked (fst y) idx)"
      and body: "(if blocked (draw_position rnd idx n s) idx
          then f rnd idx (n + 2) (draw_position rnd idx n s)
          else Some (draw_position rnd idx n s, n + 2)) = Some y"
    show "idx < length (players s) \<longrightarrow>
        (\<exists>r c. 0 \<le> r \<and> r < GRID_SIZE \<and> 0 \<le> c \<and> c < GRID_SIZE \<and>
           fst y = set_position idx r c s \<and> \<not> blocked (fst y) idx)"
    proof (intro impI)
      assume idx: "idx < length (players s)"
      show "\<exists>r c. 0 \<le> r \<and> r < GRID_SIZE \<and> 0 \<le> c \<and> c < GRID_SIZE \<and>
         fst y = set_position idx r c s \<and> \<not> blocked (fst y) idx"
      proof (cases "blocked (draw_position rnd idx n s) idx")
        case True
        then have "f rnd idx (n + 2) (draw_position rnd idx n s) = Some y"
          using body by simp
        from IH[OF this] idx
        obtain r c where rc: "0 \<le> r" "r < GRID_SIZE" "0 \<le> c" "c < GRID_SIZE"
          and y: "fst y = set_position idx r c (draw_position rnd idx n s)"
          and nb: "\<not> blocked (fst y) idx"
          by (auto simp: draw_position_def set_position_simps)
        have "fst y = set_position idx r c s"
          using y idx by (simp add: draw_position_def set_position_twice)
        then show ?thesis using rc nb by blast
      next
        case False
        then have y: "fst y = set_position idx (int (rnd n mod 5)) (int (rnd (n + 1) mod 5)) s"
          and nb: "\<not> blocked (fst y) idx"
          using body by (auto simp: draw_position_def)
        have "0 \<le> int (rnd n mod 5)" "int (rnd n mod 5) < GRID_SIZE"
          "0 \<le> int (rnd (n + 1) mod 5)" "int (rnd (n + 1) mod 5) < GRID_SIZE"
          by simp_all
        then show ?thesis using y nb by blast
      qed
    qed
  qed
  then show ?thesis using assms(2) by simp
qed

lemma count_update_simps:
  "wf_state (s\<lparr>player_count := k\<rparr>) = wf_state s"
  "positions_ok (s\<lparr>player_count := k\<rparr>) = positions_ok s"
  by (simp_all add: wf_state_def positions_ok_def obstacle_at_def)

lemma find_free_slot_Some:
  "find_free_slot s = Some idx \<Longrightarrow> idx < MAX_PLAYERS \<and> active (players s ! idx) = 0"
  by (auto simp: find_free_slot_def find_Some_iff)

lemma positions_ok_place:
  assumes wf: "wf_state s" and ok: "positions_ok s" and idx: "idx < MAX_PLAYERS"
    and r: "0 \<le> r" "r < GRID_SIZE" and c: "0 \<le> c" "c < GRID_SIZE"
    and nb: "\<not> blocked (set_position idx r c (occupy idx fd s)) idx"
  shows "positions_ok (set_position idx r c (occupy idx fd s))"
proof -
  let ?t = "set_position idx r c (occupy idx fd s)"
  have len: "length (players s) = MAX_PLAYERS" using wf by (simp add: wf_state_def)
  have nth: "players ?t ! q =
      (if q = idx then (players s ! idx)\<lparr>row := r, col := c, hp := MAX_HP, socket_fd := fd, active := 1\<rparr>
       else players s ! q)"
    if "q < MAX_PLAYERS" for q
    using len idx that by (simp add: set_position_def occupy_def nth_list_update)
  have obs: "obstacle_at ?t x y = obstacle_at s x y" for x y
    by (simp add: obstacle_at_def set_position_def occupy_def)
  have free: "obstacle_at s r c \<noteq> 1"
    using nb idx by (simp add: blocked_def nth obs)
  have nobody: "\<not> (row (players s ! q) = r \<and> col (players s ! q) = c)"
    if "q < MAX_PLAYERS" "q \<noteq> idx" "active (players s ! q) \<noteq> 0" for q
  proof -
    have "\<not> cell_taken ?t idx r c" using nb idx by (simp add: blocked_def nth)
    then have "\<not> (q \<noteq> idx \<and> active (players ?t ! q) \<noteq> 0 \<and>
        row (players ?t ! q) = r \<and> col (players ?t ! q) = c)"
      unfolding cell_taken_iff using that(1) by blast
    then show ?thesis using that by (simp add: nth)
  qed
  show ?thesis
    unfolding positions_ok_def
  proof (intro allI impI)
    fix i assume i: "i < MAX_PLAYERS" and a: "active (players ?t ! i) \<noteq> 0"
    show "0 \<le> row (players ?t ! i) \<and> row (players ?t ! i) < GRID_SIZE \<and>
       0 \<le> col (players ?t ! i) \<and> col (players ?t ! i) < GRID_SIZE \<and>
       obstacle_at ?t (row (players ?t ! i)) (col (players ?t ! i)) \<noteq> 1 \<and>
       (\<forall>j<MAX_PLAYERS. j \<noteq> i \<and> active (players ?t ! j) \<noteq> 0 \<longrightarrow>
          \<not> (row (players ?t ! j) = row (players ?t ! i) \<and>
             col (players ?t ! j) = col (players ?t ! i)))"
    proof (cases "i = idx")
      case True
      then show ?thesis
        using r c free nobody i by (auto simp: nth obs)
    next
      case False
      then have ai: "active (players s ! i) \<noteq> 0" using a i by (simp add: nth)
      from ok i ai have old: "0 \<le> row (players s ! i) \<and> row (players s ! i) < GRID_SIZE \<and>
         0 \<le> col (players s ! i) \<and> col (players s ! i) < GRID_SIZE \<and>
         obstacle_at s (row (players s ! i)) (col (players s ! i)) \<noteq> 1 \<and>
         (\<forall>j<MAX_PLAYERS. j \<noteq> i \<and> active (players s ! j) \<noteq> 0 \<longrightarrow>
            \<not> (row (players s ! j) = row (players s ! i) \<and> col (players s ! j) = col (players s ! i)))"
        unfolding positions_ok_def by blast
      show ?thesis
        using False old nobody[OF i False ai] i by (auto simp: nth obs)
    qed
  qed
qed

lemma accept_client_ok:
  assumes wf: "wf_state s" and ok: "positions_ok s"
    and acc: "accept_client rnd client_fd fails n s = Some (s', n', out, oidx)"
  shows "wf_state s' \<and> positions_ok s' \<and> (\<forall>idx. oidx = Some idx \<longrightarrow> idx < MAX_PLAYERS)"
proof (cases "player_count s \<ge> int MAX_PLAYERS \<or> find_free_slot s = None")
  case True
  then have "s' = s" "oidx = None"
    using acc by (auto simp: accept_client_def split: if_splits)
  then show ?thesis using wf ok by simp
next
  case False
  then obtain idx where slot: "find_free_slot s = Some idx" by auto
  have idx: "idx < MAX_PLAYERS" using find_free_slot_Some[OF slot] by simp
  have len: "length (players s) = MAX_PLAYERS" using wf by (simp add: wf_state_def)
  from acc False slot obtain s1 n1 where
    sp: "spawn_position rnd idx n (occupy idx client_fd s) = Some (s1, n1)"
    and res: "s' = fst (broadcast_state_locked fails (s1\<lparr>player_count := player_count s1 + 1\<rparr>))"
      "oidx = Some idx"
    by (auto simp: accept_client_def case_prod_beta split: if_splits option.splits)
  have "idx < length (players (occupy idx client_fd s))" using idx len by (simp add: occupy_def)
  from spawn_position_Some[OF sp this]
  obtain r c where rc: "0 \<le> r" "r < GRID_SIZE" "0 \<le> c" "c < GRID_SIZE"
    and s1: "s1 = set_position idx r c (occupy idx client_fd s)" and nb: "\<not> blocked s1 idx"
    by auto
  have ok1: "positions_ok s1"
    unfolding s1 using positions_ok_place[OF wf ok idx rc] nb s1 by simp
  have wf1: "wf_state s1"
    using wf by (simp add: s1 wf_state_def set_position_def occupy_def)
  let ?s2 = "s1\<lparr>player_count := player_count s1 + 1\<rparr>"
  have wf2: "wf_state ?s2" and ok2: "positions_ok ?s2"
    using wf1 ok1 by (simp_all add: count_update_simps)
  have sh: "shrinks ?s2 s'" unfolding res using wf2 by (rule shrinks_broadcast)
  show ?thesis
    using shrinks_wf[OF wf2 sh] shrinks_positions_ok[OF ok2 sh] res(2) idx by simp
qed

subsection \<open>Initialisation\<close>

lemma set_obstacle_wf:
  assumes "wf_grid obs" and "r < 5"
  shows "wf_grid (set_obstacle r c obs)"
proof -
  have "length (obs ! r) = 5"
    using assms by (simp add: wf_grid_def list_all_length)
  then show ?thesis
    using assms(1)
    by (auto simp: wf_grid_def set_obstacle_def list_all_iff
        dest!: set_update_subset_insert[THEN subsetD])
qed

lemma place_obstacles_wf:
  assumes "place_obstacles rnd obstacle_count k n obs = Some y" and "wf_grid obs"
  shows "wf_grid (fst y)"
proof -
  have "wf_grid obs \<longrightarrow> wf_grid (fst y)"
  proof (rule place_obstacles.raw_induct[where P = "\<lambda>rnd obstacle_count k n obs y.
      wf_grid obs \<longrightarrow> wf_grid (fst y)", OF _ assms(1)])
    fix f :: "(nat \<Rightarrow> nat) \<Rightarrow> nat \<Rightarrow> nat \<Rightarrow> nat \<Rightarrow> int list list \<Rightarrow> (int list list \<times> nat) option"
    fix rnd obstacle_count k n obs y
    assume IH: "\<And>rnd obstacle_count k n obs y. f rnd obstacle_count k n obs = Some y \<Longrightarrow>
        wf_grid obs \<longrightarrow> wf_grid (fst y)"
      and body: "(if k < obstacle_count
          then if obs ! (rnd n mod 5) ! (rnd (n + 1) mod 5) = 1
               then f rnd obstacle_count k (n + 2) obs
               else f rnd obstacle_count (k + 1) (n + 2)
                      (set_obstacle (rnd n mod 5) (rnd (n + 1) mod 5) obs)
          else Some (obs, n)) = Some y"
    show "wf_grid obs \<longrightarrow> wf_grid (fst y)"
      using body IH set_obstacle_wf[of obs "rnd n mod 5" "rnd (n + 1) mod 5"]
      by (auto split: if_splits)
  qed
  then show ?thesis using assms(2) by simp
qed

lemma init_players_nth:
  "length init_players = MAX_PLAYERS"
  "i < MAX_PLAYERS \<Longrightarrow> active (init_players ! i) = 0"
  by (simp_all add: init_players_def del: upt_Suc)

lemma init_game_ok:
  assumes "init_game rnd = Some (s, n)"
  shows "wf_state s \<and> positions_ok s"
proof -
  from assms obtain obs where
    po: "place_obstacles rnd (3 + rnd 0 mod 3) 0 1 (replicate 5 (replicate 5 0)) = Some (obs, n)"
    and s: "s = \<lparr>players = init_players, player_count = 0, obstacles = obs\<rparr>"
    by (auto simp: init_game_def split: option.splits)
  have "wf_grid (replicate 5 (replicate 5 0))"
    by (simp add: wf_grid_def list_all_iff)
  then have "wf_grid obs" using place_obstacles_wf[OF po] by simp
  then show ?thesis
    by (simp add: s wf_state_def positions_ok_def init_players_nth)
qed

subsection \<open>Reachable configurations\<close>

lemma reachable_config_ok:
  assumes "reachable rnd c"
  shows "config_ok c"
  using assms
proof (induction rule: reachable.induct)
  case (start s n)
  then show ?case using init_game_ok by (simp add: config_ok_def)
next
  case (refuse c client_fd fails s n out)
  then show ?case
    using accept_client_ok[of "game c" rnd client_fd fails "rand_calls c" s n out None]
    by (simp add: config_ok_def)
next
  case (join c client_fd fails s n out idx)
  then show ?case
    using accept_client_ok[of "game c" rnd client_fd fails "rand_calls c" s n out "Some idx"]
    by (simp add: config_ok_def)
next
  case (join_unspawned c client_fd fails s n out idx)
  then show ?case
    using accept_client_ok[of "game c" rnd client_fd fails "rand_calls c" s n out "Some idx"]
    by (simp add: config_ok_def)
next
  case (unspawned_cleanup c idx)
  then show ?case
    using shrinks_spawn_failed[of "game c" idx] shrinks_wf shrinks_positions_ok
    by (auto simp: config_ok_def)
next
  case (command c h buf fails s out quit)
  have idx: "player_index h < MAX_PLAYERS" using command by (simp add: config_ok_def)
  have "wf_state s \<and> positions_ok s"
    using client_command_ok[of "game c" "player_index h" "sockfd h" fails buf
        "row (players (game c) ! player_index h)" "col (players (game c) ! player_index h)"] command idx
    by (simp add: config_ok_def)
  then show ?case
    using command idx by (auto simp: config_ok_def dest: notin_set_remove1)
next
  case (stale_move c h fails newR newC)
  have idx: "player_index h < MAX_PLAYERS" using stale_move by (simp add: config_ok_def)
  show ?case
    using move_locked_ok[of "game c" "player_index h" "sockfd h" fails newR newC] stale_move idx
    by (simp add: config_ok_def)
next
  case (disconnect c h fails)
  have idx: "player_index h < MAX_PLAYERS" using disconnect by (simp add: config_ok_def)
  have wf: "wf_state (game c)" using disconnect by (simp add: config_ok_def)
  show ?case
    using shrinks_client_disconnect[OF wf, of "player_index h" fails] disconnect idx
      shrinks_wf shrinks_positions_ok
    by (auto simp: config_ok_def dest: notin_set_remove1)
next
  case (cleanup c h)
  show ?case
    using shrinks_client_cleanup[of "game c" "player_index h" "sockfd h"] cleanup
      shrinks_wf shrinks_positions_ok
    by (auto simp: config_ok_def dest: notin_set_remove1)
qed

text \<open>
  Claim C1. In every reachable configuration no two occupied slots share a cell, and
  every occupied slot stands inside the grid on a cell that is not an obstacle.
\<close>

theorem reachable_positions_valid:
  assumes "reachable rnd c"
  shows "\<forall>i<MAX_PLAYERS. active (players (game c) ! i) \<noteq> 0 \<longrightarrow>
     0 \<le> row (players (game c) ! i) \<and> row (players (game c) ! i) < GRID_SIZE \<and>
     0 \<le> col (players (game c) ! i) \<and> col (players (game c) ! i) < GRID_SIZE \<and>
     obstacle_at (game c) (row (players (game c) ! i)) (col (players (game c) ! i)) \<noteq> 1 \<and>
     (\<forall>j<MAX_PLAYERS. j \<noteq> i \<and> active (players (game c) ! j) \<noteq> 0 \<longrightarrow>
        \<not> (row (players (game c) ! j) = row (players (game c) ! i) \<and>
           col (players (game c) ! j) = col (players (game c) ! i)))"
  using reachable_config_ok[OF assms] unfolding config_ok_def positions_ok_def by blast

subsection \<open>A run of the server\<close>

lemma init_demo: "init_game demo_rand = Some (arena0, 7)"
  by code_simp

lemma join_demo_1:
  "accept_client demo_rand 10 never_fails 7 arena0 =
     Some (solo, 9, snd (broadcast_state_locked never_fails solo), Some 0)"
  by code_simp

lemma join_demo_2:
  "accept_client demo_rand 11 never_fails 9 solo =
     Some (duel, 11, snd (broadcast_state_locked never_fails duel), Some 1)"
  by code_simp

lemma reachable_demo_config: "reachable demo_rand demo_config"
proof -
  let ?c0 = "\<lparr>game = arena0, rand_calls = 7, handlers = [], unspawned = None\<rparr>"
  let ?c1 = "\<lparr>game = solo, rand_calls = 9, handlers = [handler_A], unspawned = None\<rparr>"
  have r0: "reachable demo_rand ?c0"
    by (rule reachable.start[OF init_demo])
  have r1: "reachable demo_rand ?c1"
    using reachable.join[of demo_rand ?c0 10 never_fails solo 9
        "snd (broadcast_state_locked never_fails solo)" 0] r0 join_demo_1
    by (simp add: client_start_def handler_A_def solo_def)
  show ?thesis
    using reachable.join[of demo_rand ?c1 11 never_fails duel 11
        "snd (broadcast_state_locked never_fails duel)" 1] r1 join_demo_2
    by (simp add: client_start_def handler_A_def handler_B_def demo_config_def duel_def)
qed

theorem reachable_positions_valid_witness:
  "reachable demo_rand demo_config
   \<and> active (players (game demo_config) ! 0) \<noteq> 0 \<and> active (players (game demo_config) ! 1) \<noteq> 0
   \<and> 0 \<le> row (players (game demo_config) ! 0) \<and> row (players (game demo_config) ! 0) < GRID_SIZE
   \<and> 0 \<le> col (players (game demo_config) ! 0) \<and> col (players (game demo_config) ! 0) < GRID_SIZE
   \<and> obstacle_at (game demo_config) (row (players (game demo_config) ! 0))
        (col (players (game demo_config) ! 0)) \<noteq> 1
   \<and> \<not> (row (players (game demo_config) ! 1) = row (players (game demo_config) ! 0) \<and>
          col (players (game demo_config) ! 1) = col (players (game demo_config) ! 0))"
proof -
  have act: "active (players (game demo_config) ! 0) \<noteq> 0" "active (players (game demo_config) ! 1) \<noteq> 0"
    by (simp_all add: demo_config_def duel_def)
  note inv = reachable_positions_valid[OF reachable_demo_config, unfolded all_less_4]
  from inv act(1) have a: "0 \<le> row (players (game demo_config) ! 0) \<and> row (players (game demo_config) ! 0) < GRID_SIZE
     \<and> 0 \<le> col (players (game demo_config) ! 0) \<and> col (players (game demo_config) ! 0) < GRID_SIZE
     \<and> obstacle_at (game demo_config) (row (players (game demo_config) ! 0))
        (col (players (game demo_config) ! 0)) \<noteq> 1
     \<and> ((1::nat) \<noteq> 0 \<and> active (players (game demo_config) ! 1) \<noteq> 0 \<longrightarrow>
        \<not> (row (players (game demo_config) ! 1) = row (players (game demo_config) ! 0) \<and>
           col (players (game demo_config) ! 1) = col (players (game demo_config) ! 0)))"
    by blast
  then show ?thesis using act reachable_demo_config by simp
qed

subsection \<open>The counter\<close>

lemma reachable_command:
  assumes "reachable rnd c" and "h \<in> set (handlers c)" and "\<not> leaving h"
    and "0 < length buf" and "length buf \<le> 255"
  shows "reachable rnd (c\<lparr>game := fst (client_command (player_index h) (sockfd h) fails buf
       (row (players (game c) ! player_index h)) (col (players (game c) ! player_index h)) (game c)),
     handlers := h\<lparr>leaving := snd (snd (client_command (player_index h) (sockfd h) fails buf
       (row (players (game c) ! player_index h)) (col (players (game c) ! player_index h)) (game c)))\<rparr>
       # remove1 h (handlers c)\<rparr>)"
  by (rule reachable.command[OF assms, where fails = fails
        and out = "fst (snd (client_command (player_index h) (sockfd h) fails buf
       (row (players (game c) ! player_index h)) (col (players (game c) ! player_index h)) (game c)))"])
    simp

lemma attack_line_tests:
  "c_line ''ATTACK'' = ''ATTACK''" "\<not> strncasecmp_eq ''ATTACK'' ''MOVE'' 4"
  "strcasecmp_eq ''ATTACK'' ''ATTACK''"
  by code_simp+

lemma client_command_attack:
  "client_command idx fd fails ''ATTACK'' seenR seenC s =
     (fst (handle_attack idx fd fails s), snd (handle_attack idx fd fails s), False)"
  using attack_line_tests by (simp add: client_command_def Let_def case_prod_beta)

lemma attack_demo:
  "fst (handle_attack 0 10 never_fails duel) = wounded 80"
  "fst (handle_attack 0 10 never_fails (wounded 80)) = wounded 60"
  "fst (handle_attack 0 10 never_fails (wounded 60)) = wounded 40"
  "fst (handle_attack 0 10 never_fails (wounded 40)) = wounded 20"
  "fst (handle_attack 0 10 never_fails (wounded 20)) = after_kill"
  "fst (handle_quit 1 never_fails after_kill) = after_kill\<lparr>player_count := 0\<rparr>"
  by code_simp+

lemma reachable_fight:
  assumes "reachable demo_rand (fight_config s)"
  shows "reachable demo_rand (fight_config (fst (handle_attack 0 10 never_fails s)))"
  using reachable_command[OF assms, of handler_A "''ATTACK''" never_fails]
  by (simp add: fight_config_def handler_A_def handler_B_def client_command_attack)

lemma reachable_last_blow: "reachable demo_rand (fight_config (wounded 20))"
proof -
  have "reachable demo_rand (fight_config (wounded 80))"
    using reachable_command[OF reachable_demo_config, of handler_A "''ATTACK''" never_fails]
    by (simp add: demo_config_def fight_config_def handler_A_def handler_B_def attack_demo
        client_command_attack)
  from reachable_fight[OF this] have "reachable demo_rand (fight_config (wounded 60))"
    by (simp add: attack_demo)
  from reachable_fight[OF this] have "reachable demo_rand (fight_config (wounded 40))"
    by (simp add: attack_demo)
  from reachable_fight[OF this] show ?thesis
    by (simp add: attack_demo)
qed

lemma reachable_after_kill: "reachable demo_rand (fight_config after_kill)"
  using reachable_fight[OF reachable_last_blow] by (simp add: attack_demo)

lemma reachable_ghost_config: "reachable demo_rand ghost_config"
  using reachable_command[OF reachable_after_kill, of handler_B "''QUIT''" never_fails]
  by (simp add: fight_config_def ghost_config_def handler_A_def handler_B_def
      attack_demo(6)[unfolded One_nat_def] client_command_quit)

text \<open>
  Claim C2 fails on the code. After two joins and five attacks of A on B, slot B has
  been freed by the attack and the counter is 1. The handler thread of B is still alive;
  when it now receives QUIT, lines 241-244 decrement the counter again: the counter is 0
  while one slot is occupied.
\<close>

theorem quit_after_death_breaks_count:
  "reachable demo_rand ghost_config
   \<and> player_count (game ghost_config) = 0
   \<and> length (filter (\<lambda>p. active p \<noteq> 0) (players (game ghost_config))) = 1"
  using reachable_ghost_config by (simp add: ghost_config_def after_kill_def)

subsection \<open>A move after the slot was occupied anew\<close>

lemma join_again:
  "accept_client demo_rand 12 never_fails 11 after_kill =
     Some (rejoined, 13, snd (broadcast_state_locked never_fails rejoined), Some 1)"
  by code_simp

lemma reachable_rejoin_config: "reachable demo_rand rejoin_config"
  using reachable.join[of demo_rand "fight_config after_kill" 12 never_fails rejoined 13
      "snd (broadcast_state_locked never_fails rejoined)" 1] reachable_after_kill join_again
  by (simp add: client_start_def fight_config_def rejoin_config_def handler_B_new_def rejoined_def)

text \<open>
  Claim C5 fails on the code. The claim computes the target of a MOVE from the position
  the slot has in the state the move is resolved in; the code computes it from the
  position it reads at lines 152-153, before it takes the lock at line 168. In the run
  below the thread of B on socket 11 receives MOVE DOWN while its slot is on (0,2), one
  blow before its death, and computes the target (1,2). Before it gets the lock, A's
  last attack frees the slot and a third client joins into it, on (4,0). The thread then
  resolves its move in that state: the target by the direction offset is (5,0), out of
  bounds, so the claim has the state unchanged and the out-of-bounds message sent, as
  the code does when it reads the position (4,0); with the position read earlier the
  code puts the slot on (1,2), three rows and two columns away, and broadcasts.
\<close>

theorem move_commits_stale_target:
  "reachable demo_rand (fight_config (wounded 20))
   \<and> handler_B \<in> set (handlers (fight_config (wounded 20)))
   \<and> row (players (wounded 20) ! 1) = 0 \<and> col (players (wounded 20) ! 1) = 2
   \<and> reachable demo_rand rejoin_config
   \<and> handler_B \<in> set (handlers rejoin_config) \<and> player_index handler_B = 1
   \<and> sockfd handler_B = 11 \<and> leaving handler_B = False
   \<and> game rejoin_config = rejoined
   \<and> active (players rejoined ! 1) = 1
   \<and> row (players rejoined ! 1) = 4 \<and> col (players rejoined ! 1) = 0
   \<and> client_command 1 11 never_fails ''MOVE DOWN'' 0 2 rejoined =
       (set_position 1 1 2 rejoined,
        [Send 10 (state_msg (set_position 1 1 2 rejoined)),
         Send 12 (state_msg (set_position 1 1 2 rejoined))], False)
   \<and> row (players (set_position 1 1 2 rejoined) ! 1) = 1
   \<and> col (players (set_position 1 1 2 rejoined) ! 1) = 2
   \<and> client_command 1 11 never_fails ''MOVE DOWN'' 4 0 rejoined =
       (rejoined, [Send 11 msg_out_of_bounds], False)"
proof -
  have read: "handler_B \<in> set (handlers (fight_config (wounded 20)))"
    "row (players (wounded 20) ! 1) = 0" "col (players (wounded 20) ! 1) = 2"
    by (simp_all add: fight_config_def wounded_def duel_def)
  have thread: "handler_B \<in> set (handlers rejoin_config)" "player_index handler_B = 1"
    "sockfd handler_B = 11" "leaving handler_B = False" "game rejoin_config = rejoined"
    by (simp_all add: rejoin_config_def handler_B_def)
  have slot: "active (players rejoined ! 1) = 1" "row (players rejoined ! 1) = 4"
    "col (players rejoined ! 1) = 0"
    by (simp_all add: rejoined_def)
  have stale: "client_command 1 11 never_fails ''MOVE DOWN'' 0 2 rejoined =
       (set_position 1 1 2 rejoined,
        [Send 10 (state_msg (set_position 1 1 2 rejoined)),
         Send 12 (state_msg (set_position 1 1 2 rejoined))], False)"
    by code_simp
  have moved: "row (players (set_position 1 1 2 rejoined) ! 1) = 1"
    "col (players (set_position 1 1 2 rejoined) ! 1) = 2"
    by (simp_all add: set_position_def rejoined_def)
  have fresh: "client_command 1 11 never_fails ''MOVE DOWN'' 4 0 rejoined =
       (rejoined, [Send 11 msg_out_of_bounds], False)"
    by code_simp
  show ?thesis
    using reachable_last_blow reachable_rejoin_config read thread slot stale moved fresh
    by blast
qed

subsection \<open>The placement loop\<close>

lemma blocked_draw_iff:
  assumes "idx < MAX_PLAYERS" and "length (players s) = MAX_PLAYERS"
  shows "blocked (set_position idx r c s) idx \<longleftrightarrow> obstacle_at s r c = 1 \<or> cell_taken s idx r c"
proof -
  have nth: "players (set_position idx r c s) ! q =
      (if q = idx then (players s ! idx)\<lparr>row := r, col := c\<rparr> else players s ! q)"
    if "q < MAX_PLAYERS" for q
    using set_position_nth[of idx s q r c] assms that by simp
  have "cell_taken (set_position idx r c s) idx x y = cell_taken s idx x y" for x y
    unfolding cell_taken_iff using nth by auto
  then show ?thesis
    using assms(1) by (simp add: blocked_def nth obstacle_at_def set_position_simps)
qed

lemma blocked_draw_twice:
  assumes "idx < length (players s)"
  shows "draw_position rnd idx m (draw_position rnd idx n s) = draw_position rnd idx m s"
  using assms by (simp add: draw_position_def set_position_twice)

lemma spawn_position_returns:
  assumes "idx < length (players s)"
    and "\<not> blocked (draw_position rnd idx (n + 2 * k) s) idx"
  shows "\<exists>j\<le>k. spawn_position rnd idx n s =
      Some (draw_position rnd idx (n + 2 * j) s, n + 2 * j + 2) \<and>
    \<not> blocked (draw_position rnd idx (n + 2 * j) s) idx \<and>
    (\<forall>i<j. blocked (draw_position rnd idx (n + 2 * i) s) idx)"
  using assms
proof (induction k arbitrary: n s)
  case 0
  then have "spawn_position rnd idx n s = Some (draw_position rnd idx n s, n + 2)"
    by (subst spawn_position.simps) simp
  then show ?case using 0 by simp
next
  case (Suc k)
  show ?case
  proof (cases "blocked (draw_position rnd idx n s) idx")
    case False
    then have "spawn_position rnd idx n s = Some (draw_position rnd idx n s, n + 2)"
      by (subst spawn_position.simps) simp
    then show ?thesis using False by (intro exI[of _ 0]) simp
  next
    case True
    let ?s = "draw_position rnd idx n s"
    have len: "idx < length (players ?s)"
      using Suc.prems(1) by (simp add: draw_position_def set_position_simps)
    have same: "draw_position rnd idx m ?s = draw_position rnd idx m s" for m
      using Suc.prems(1) by (rule blocked_draw_twice)
    have "\<not> blocked (draw_position rnd idx (n + 2 + 2 * k) ?s) idx"
      using Suc.prems(2) by (simp add: same)
    from Suc.IH[OF len this] obtain j where j: "j \<le> k"
      "spawn_position rnd idx (n + 2) ?s = Some (draw_position rnd idx (n + 2 + 2 * j) s, n + 2 + 2 * j + 2)"
      "\<not> blocked (draw_position rnd idx (n + 2 + 2 * j) s) idx"
      "\<forall>i<j. blocked (draw_position rnd idx (n + 2 + 2 * i) s) idx"
      by (auto simp: same)
    have step: "spawn_position rnd idx n s = spawn_position rnd idx (n + 2) ?s"
      using True by (subst spawn_position.simps) simp
    have earlier: "blocked (draw_position rnd idx (n + 2 * i) s) idx" if "i < Suc j" for i
    proof (cases i)
      case 0
      then show ?thesis using True by simp
    next
      case (Suc i')
      then show ?thesis using j(4) that by (simp add: add.assoc)
    qed
    show ?thesis
      using j(1,2,3) earlier step
      by (intro exI[of _ "Suc j"]) (simp add: add.assoc)
  qed
qed

lemma spawn_position_never:
  assumes "idx < length (players s)"
    and "\<forall>k. blocked (draw_position rnd idx (n + 2 * k) s) idx"
  shows "spawn_position rnd idx n s = None"
proof (rule ccontr)
  assume "spawn_position rnd idx n s \<noteq> None"
  then obtain y where y: "spawn_position rnd idx n s = Some y" by auto
  have "idx < length (players s) \<longrightarrow>
      (\<forall>k. blocked (draw_position rnd idx (n + 2 * k) s) idx) \<longrightarrow> False"
  proof (rule spawn_position.raw_induct[where P = "\<lambda>rnd idx n s y.
      idx < length (players s) \<longrightarrow>
      (\<forall>k. blocked (draw_position rnd idx (n + 2 * k) s) idx) \<longrightarrow> False", OF _ y])
    fix f :: "(nat \<Rightarrow> nat) \<Rightarrow> nat \<Rightarrow> nat \<Rightarrow> game_state \<Rightarrow> (game_state \<times> nat) option"
    fix rnd idx n s y
    assume IH: "\<And>rnd idx n s y. f rnd idx n s = Some y \<Longrightarrow>
        idx < length (players s) \<longrightarrow>
        (\<forall>k. blocked (draw_position rnd idx (n + 2 * k) s) idx) \<longrightarrow> False"
      and body: "(if blocked (draw_position rnd idx n s) idx
          then f rnd idx (n + 2) (draw_position rnd idx n s)
          else Some (draw_position rnd idx n s, n + 2)) = Some y"
    show "idx < length (players s) \<longrightarrow>
        (\<forall>k. blocked (draw_position rnd idx (n + 2 * k) s) idx) \<longrightarrow> False"
    proof (intro impI)
      assume idx: "idx < length (players s)"
        and all: "\<forall>k. blocked (draw_position rnd idx (n + 2 * k) s) idx"
      let ?s = "draw_position rnd idx n s"
      have "blocked ?s idx" using all[rule_format, of 0] by simp
      then have next_draw: "f rnd idx (n + 2) ?s = Some y" using body by simp
      have len: "idx < length (players ?s)"
        using idx by (simp add: draw_position_def set_position_def)
      have "blocked (draw_position rnd idx (n + 2 + 2 * k) ?s) idx" for k
        using all[rule_format, of "Suc k"] blocked_draw_twice[OF idx, of rnd "n + 2 + 2 * k" n]
        by (simp add: add.assoc)
      then show False using IH[OF next_draw] len by blast
    qed
  qed
  then show False using assms by simp
qed

lemma spawn_position_stuck:
  assumes "obstacles s ! 0 ! 0 = 1" and "idx < length (players s)"
  shows "spawn_position stuck_rand idx n s = None"
proof (rule ccontr)
  assume "spawn_position stuck_rand idx n s \<noteq> None"
  then obtain y where y: "spawn_position stuck_rand idx n s = Some y" by auto
  have "stuck_rand = stuck_rand \<longrightarrow> idx < length (players s) \<longrightarrow> obstacles s ! 0 ! 0 = 1 \<longrightarrow> False"
  proof (rule spawn_position.raw_induct[where P = "\<lambda>rnd idx n s y.
      rnd = stuck_rand \<longrightarrow> idx < length (players s) \<longrightarrow> obstacles s ! 0 ! 0 = 1 \<longrightarrow> False", OF _ y])
    fix f :: "(nat \<Rightarrow> nat) \<Rightarrow> nat \<Rightarrow> nat \<Rightarrow> game_state \<Rightarrow> (game_state \<times> nat) option"
    fix rnd idx n s y
    assume IH: "\<And>rnd idx n s y. f rnd idx n s = Some y \<Longrightarrow>
        rnd = stuck_rand \<longrightarrow> idx < length (players s) \<longrightarrow> obstacles s ! 0 ! 0 = 1 \<longrightarrow> False"
      and body: "(if blocked (draw_position rnd idx n s) idx
          then f rnd idx (n + 2) (draw_position rnd idx n s)
          else Some (draw_position rnd idx n s, n + 2)) = Some y"
    show "rnd = stuck_rand \<longrightarrow> idx < length (players s) \<longrightarrow> obstacles s ! 0 ! 0 = 1 \<longrightarrow> False"
    proof (intro impI)
      assume rnd: "rnd = stuck_rand" and idx: "idx < length (players s)"
        and obs: "obstacles s ! 0 ! 0 = 1"
      let ?s = "draw_position rnd idx n s"
      have "row (players ?s ! idx) = 0" "col (players ?s ! idx) = 0" "obstacles ?s = obstacles s"
        "idx < length (players ?s)"
        using idx unfolding rnd by (simp_all add: draw_position_def set_position_def stuck_rand_def)
      then have "blocked ?s idx" "idx < length (players ?s)" "obstacles ?s ! 0 ! 0 = 1"
        using obs by (simp_all add: blocked_def obstacle_at_def)
      then show False using body IH rnd by auto
    qed
  qed
  then show False using assms by simp
qed

subsection \<open>The obstacle loop\<close>

lemma finite_obstacle_cells: "finite (obstacle_cells obs)"
proof (rule finite_subset)
  show "obstacle_cells obs \<subseteq> {..<5} \<times> {..<5}" by (auto simp: obstacle_cells_def)
qed simp

lemma finite_drawn_cells: "finite (drawn_cells rnd n m)"
  by (simp add: drawn_cells_def)

lemma drawn_cells_Suc:
  "drawn_cells rnd n (Suc m) =
     insert (rnd n mod 5, rnd (n + 1) mod 5) (drawn_cells rnd (n + 2) m)"
proof -
  have "{..<Suc m} = insert 0 (Suc ` {..<m})"
    by (auto simp: lessThan_Suc_eq_insert_0)
  then show ?thesis
    by (simp add: drawn_cells_def image_image add.assoc)
qed

lemma set_obstacle_nth:
  assumes "wf_grid obs" and "r < 5" and "c < 5" and "x < 5" and "y < 5"
  shows "set_obstacle r c obs ! x ! y = (if x = r \<and> y = c then 1 else obs ! x ! y)"
proof -
  have "length obs = 5" "length (obs ! r) = 5"
    using assms by (simp_all add: wf_grid_def list_all_length)
  then show ?thesis
    using assms by (auto simp: set_obstacle_def nth_list_update)
qed

lemma obstacle_cells_set_obstacle:
  assumes "wf_grid obs" and "r < 5" and "c < 5"
  shows "obstacle_cells (set_obstacle r c obs) = insert (r, c) (obstacle_cells obs)"
  using assms by (auto simp: obstacle_cells_def set_obstacle_nth)

lemma place_obstacles_returns:
  assumes "wf_grid obs" and "k \<le> obstacle_count"
    and "obstacle_count - k \<le> card (drawn_cells rnd n m - obstacle_cells obs)"
  shows "\<exists>obs' n'. place_obstacles rnd obstacle_count k n obs = Some (obs', n') \<and> wf_grid obs' \<and>
     card (obstacle_cells obs') = card (obstacle_cells obs) + (obstacle_count - k)"
  using assms
proof (induction m arbitrary: k n obs)
  case 0
  then have "k = obstacle_count" by (simp add: drawn_cells_def)
  then have "place_obstacles rnd obstacle_count k n obs = Some (obs, n)"
    by (subst place_obstacles.simps) simp
  then show ?case using 0 \<open>k = obstacle_count\<close> by simp
next
  case (Suc m)
  show ?case
  proof (cases "k < obstacle_count")
    case False
    then have "place_obstacles rnd obstacle_count k n obs = Some (obs, n)"
      by (subst place_obstacles.simps) simp
    then show ?thesis using Suc.prems False by simp
  next
    case True
    let ?r = "rnd n mod 5" and ?c = "rnd (n + 1) mod 5"
    have rc: "?r < 5" "?c < 5" by simp_all
    show ?thesis
    proof (cases "obs ! ?r ! ?c = 1")
      case hit: True
      then have "(?r, ?c) \<in> obstacle_cells obs" by (simp add: obstacle_cells_def)
      then have "drawn_cells rnd n (Suc m) - obstacle_cells obs
          = drawn_cells rnd (n + 2) m - obstacle_cells obs"
        unfolding drawn_cells_Suc by auto
      then have "obstacle_count - k \<le> card (drawn_cells rnd (n + 2) m - obstacle_cells obs)"
        using Suc.prems(3) by simp
      from Suc.IH[OF Suc.prems(1,2) this]
      show ?thesis using True hit by (subst place_obstacles.simps) simp
    next
      case miss: False
      let ?obs = "set_obstacle ?r ?c obs"
      have wf: "wf_grid ?obs" using Suc.prems(1) rc(1) by (rule set_obstacle_wf)
      have cells: "obstacle_cells ?obs = insert (?r, ?c) (obstacle_cells obs)"
        using Suc.prems(1) rc by (rule obstacle_cells_set_obstacle)
      have new: "(?r, ?c) \<notin> obstacle_cells obs" using miss by (simp add: obstacle_cells_def)
      have "drawn_cells rnd n (Suc m) - obstacle_cells obs
          \<subseteq> insert (?r, ?c) (drawn_cells rnd (n + 2) m - obstacle_cells ?obs)"
        unfolding drawn_cells_Suc cells by auto
      then have "card (drawn_cells rnd n (Suc m) - obstacle_cells obs)
          \<le> card (insert (?r, ?c) (drawn_cells rnd (n + 2) m - obstacle_cells ?obs))"
        by (intro card_mono) (simp_all add: finite_drawn_cells)
      also have "\<dots> \<le> Suc (card (drawn_cells rnd (n + 2) m - obstacle_cells ?obs))"
        by (rule card_insert_le_m1) simp_all
      finally have "obstacle_count - (k + 1) \<le> card (drawn_cells rnd (n + 2) m - obstacle_cells ?obs)"
        using Suc.prems(3) by simp
      moreover have "k + 1 \<le> obstacle_count" using True by simp
      ultimately obtain obs' n' where
        res: "place_obstacles rnd obstacle_count (k + 1) (n + 2) ?obs = Some (obs', n')" "wf_grid obs'"
          "card (obstacle_cells obs') = card (obstacle_cells ?obs) + (obstacle_count - (k + 1))"
        using Suc.IH[OF wf] by blast
      have "card (obstacle_cells ?obs) = Suc (card (obstacle_cells obs))"
        unfolding cells using new by (simp add: finite_obstacle_cells)
      then have "card (obstacle_cells obs') = card (obstacle_cells obs) + (obstacle_count - k)"
        using res(3) True by simp
      moreover have "place_obstacles rnd obstacle_count k n obs = Some (obs', n')"
        using True miss res(1) by (subst place_obstacles.simps) simp
      ultimately show ?thesis using res(2) by blast
    qed
  qed
qed

lemma obstacle_cells_empty: "obstacle_cells (replicate 5 (replicate 5 0)) = {}"
  by (auto simp: obstacle_cells_def)

lemma init_game_returns:
  assumes "3 + rnd 0 mod 3 \<le> card (drawn_cells rnd 1 m)"
  shows "\<exists>s n. init_game rnd = Some (s, n) \<and> wf_state s \<and>
     card (obstacle_cells (obstacles s)) = 3 + rnd 0 mod 3"
proof -
  have wf: "wf_grid (replicate 5 (replicate 5 0))"
    by (simp add: wf_grid_def list_all_iff)
  have "3 + rnd 0 mod 3 - 0 \<le> card (drawn_cells rnd 1 m - obstacle_cells (replicate 5 (replicate 5 0)))"
    using assms by (simp add: obstacle_cells_empty)
  from place_obstacles_returns[OF wf _ this] obtain obs n where
    "place_obstacles rnd (3 + rnd 0 mod 3) 0 1 (replicate 5 (replicate 5 0)) = Some (obs, n)"
    "wf_grid obs" "card (obstacle_cells obs) = 3 + rnd 0 mod 3"
    by (auto simp: obstacle_cells_empty)
  then show ?thesis
    by (simp add: init_game_def wf_state_def init_players_nth)
qed

lemma place_obstacles_stuck:
  assumes "obs ! 0 ! 0 = 1" and "k < obstacle_count"
  shows "place_obstacles stuck_rand obstacle_count k n obs = None"
proof (rule ccontr)
  assume "place_obstacles stuck_rand obstacle_count k n obs \<noteq> None"
  then obtain y where y: "place_obstacles stuck_rand obstacle_count k n obs = Some y" by auto
  have "stuck_rand = stuck_rand \<longrightarrow> obs ! 0 ! 0 = 1 \<longrightarrow> k < obstacle_count \<longrightarrow> False"
  proof (rule place_obstacles.raw_induct[where P = "\<lambda>rnd obstacle_count k n obs y.
      rnd = stuck_rand \<longrightarrow> obs ! 0 ! 0 = 1 \<longrightarrow> k < obstacle_count \<longrightarrow> False", OF _ y])
    fix f :: "(nat \<Rightarrow> nat) \<Rightarrow> nat \<Rightarrow> nat \<Rightarrow> nat \<Rightarrow> int list list \<Rightarrow> (int list list \<times> nat) option"
    fix rnd obstacle_count k n obs y
    assume IH: "\<And>rnd obstacle_count k n obs y. f rnd obstacle_count k n obs = Some y \<Longrightarrow>
        rnd = stuck_rand \<longrightarrow> obs ! 0 ! 0 = 1 \<longrightarrow> k < obstacle_count \<longrightarrow> False"
      and body: "(if k < obstacle_count
          then if obs ! (rnd n mod 5) ! (rnd (n + 1) mod 5) = 1
               then f rnd obstacle_count k (n + 2) obs
               else f rnd obstacle_count (k + 1) (n + 2)
                      (set_obstacle (rnd n mod 5) (rnd (n + 1) mod 5) obs)
          else Some (obs, n)) = Some y"
    show "rnd = stuck_rand \<longrightarrow> obs ! 0 ! 0 = 1 \<longrightarrow> k < obstacle_count \<longrightarrow> False"
    proof (intro impI)
      assume *: "rnd = stuck_rand" "obs ! 0 ! 0 = 1" "k < obstacle_count"
      then have "f rnd obstacle_count k (n + 2) obs = Some y"
        using body by (simp add: stuck_rand_def)
      from IH[OF this] show False using * by simp
    qed
  qed
  then show False using assms by simp
qed

lemma init_game_stuck: "init_game stuck_rand = None"
proof -
  let ?Z = "replicate 5 (replicate 5 (0::int))"
  have "place_obstacles stuck_rand 3 0 1 ?Z =
      place_obstacles stuck_rand 3 (0 + 1) (1 + 2)
        (set_obstacle (stuck_rand 1 mod 5) (stuck_rand (1 + 1) mod 5) ?Z)"
    by (subst place_obstacles.simps) (simp add: stuck_rand_def)
  also have "\<dots> = None"
    by (rule place_obstacles_stuck) (simp_all add: stuck_rand_def set_obstacle_def)
  finally show ?thesis by (simp add: init_game_def stuck_rand_def)
qed

subsection \<open>A free cell exists\<close>

lemma free_cell_exists:
  assumes wf: "wf_state s" and obs: "card (obstacle_cells (obstacles s)) \<le> 5"
  shows "\<exists>r c. admissible s idx (int r, int c)"
proof -
  let ?G = "{..<5::nat} \<times> {..<5::nat}"
  let ?O = "obstacle_cells (obstacles s)"
  let ?P = "(\<lambda>q. (nat (row (players s ! q)), nat (col (players s ! q)))) ` {..<MAX_PLAYERS}"
  have "card ?P \<le> card {..<MAX_PLAYERS}" by (rule card_image_le) simp
  then have "card (?O \<union> ?P) \<le> 5 + 4"
    using obs card_Un_le[of ?O ?P] by simp
  moreover have "card ?G = 25" by simp
  ultimately have "\<not> ?G \<subseteq> ?O \<union> ?P"
    using card_mono[of "?O \<union> ?P" ?G] finite_obstacle_cells[of "obstacles s"] by auto
  then obtain r c where rc: "r < 5" "c < 5" "(r, c) \<notin> ?O" "(r, c) \<notin> ?P" by auto
  have "obstacle_at s (int r) (int c) \<noteq> 1"
    using rc(1-3) by (simp add: obstacle_cells_def obstacle_at_def)
  moreover have "\<not> cell_taken s idx (int r) (int c)"
  proof
    assume "cell_taken s idx (int r) (int c)"
    then obtain q where "q < MAX_PLAYERS" "row (players s ! q) = int r" "col (players s ! q) = int c"
      unfolding cell_taken_iff by blast
    then have "(r, c) \<in> ?P" by (auto simp: image_iff intro!: bexI[of _ q])
    then show False using rc(4) by simp
  qed
  ultimately show ?thesis using rc(1,2) by (auto simp: admissible_def)
qed

lemma blocked_draw_admissible:
  assumes "wf_state s" and "idx < MAX_PLAYERS"
  shows "blocked (draw_position rnd idx (n + 2 * k) s) idx \<longleftrightarrow> \<not> admissible s idx (drawn_cell rnd n k)"
proof -
  have len: "length (players s) = MAX_PLAYERS" using assms by (simp add: wf_state_def)
  show ?thesis
    unfolding draw_position_def blocked_draw_iff[OF assms(2) len]
    by (simp add: admissible_def drawn_cell_def)
qed

text \<open>
  Claim C9, as amended. The obstacle loop returns, with between 3 and 5 obstacle cells,
  as soon as the draws contain as many distinct cells as obstacles are to be placed. A
  state with at most 5 obstacle cells always has an admissible cell (neither an obstacle
  nor the cell of another occupied slot), and the placement loop returns at the first
  draw of an admissible cell, having re-drawn on every draw before it. When no draw is
  admissible, the placement loop does not return.
\<close>

theorem sampling_loops_return:
  "(3 + rnd 0 mod 3 \<le> card (drawn_cells rnd 1 m) \<longrightarrow>
      (\<exists>s0 n0. init_game rnd = Some (s0, n0) \<and> wf_state s0 \<and>
         3 \<le> card (obstacle_cells (obstacles s0)) \<and> card (obstacle_cells (obstacles s0)) \<le> 5))
   \<and> (wf_state s \<and> idx < MAX_PLAYERS \<and> card (obstacle_cells (obstacles s)) \<le> 5 \<longrightarrow>
        (\<exists>r c. admissible s idx (int r, int c)))
   \<and> (wf_state s \<and> idx < MAX_PLAYERS \<and> admissible s idx (drawn_cell rnd n k) \<longrightarrow>
        (\<exists>j\<le>k. spawn_position rnd idx n s =
             Some (set_position idx (fst (drawn_cell rnd n j)) (snd (drawn_cell rnd n j)) s,
                   n + 2 * j + 2) \<and>
           admissible s idx (drawn_cell rnd n j) \<and>
           (\<forall>i<j. \<not> admissible s idx (drawn_cell rnd n i))))
   \<and> (wf_state s \<and> idx < MAX_PLAYERS \<and> (\<forall>i. \<not> admissible s idx (drawn_cell rnd n i)) \<longrightarrow>
        spawn_position rnd idx n s = None)"
proof (intro conjI impI)
  assume "3 + rnd 0 mod 3 \<le> card (drawn_cells rnd 1 m)"
  from init_game_returns[OF this] obtain s0 n0 where
    "init_game rnd = Some (s0, n0)" "wf_state s0"
    "card (obstacle_cells (obstacles s0)) = 3 + rnd 0 mod 3"
    by blast
  moreover have "rnd 0 mod 3 \<le> 2" by simp
  ultimately show "\<exists>s0 n0. init_game rnd = Some (s0, n0) \<and> wf_state s0 \<and>
         3 \<le> card (obstacle_cells (obstacles s0)) \<and> card (obstacle_cells (obstacles s0)) \<le> 5"
    by (intro exI[of _ s0] exI[of _ n0]) simp
next
  assume "wf_state s \<and> idx < MAX_PLAYERS \<and> card (obstacle_cells (obstacles s)) \<le> 5"
  then show "\<exists>r c. admissible s idx (int r, int c)"
    using free_cell_exists by blast
next
  assume a: "wf_state s \<and> idx < MAX_PLAYERS \<and> admissible s idx (drawn_cell rnd n k)"
  then have wf: "wf_state s" and idx: "idx < MAX_PLAYERS" by simp_all
  have len: "idx < length (players s)" using wf idx by (simp add: wf_state_def)
  have "\<not> blocked (draw_position rnd idx (n + 2 * k) s) idx"
    using a blocked_draw_admissible[OF wf idx] by simp
  from spawn_position_returns[OF len this]
  show "\<exists>j\<le>k. spawn_position rnd idx n s =
             Some (set_position idx (fst (drawn_cell rnd n j)) (snd (drawn_cell rnd n j)) s,
                   n + 2 * j + 2) \<and>
           admissible s idx (drawn_cell rnd n j) \<and>
           (\<forall>i<j. \<not> admissible s idx (drawn_cell rnd n i))"
    unfolding blocked_draw_admissible[OF wf idx]
    by (simp add: draw_position_def drawn_cell_def)
next
  assume a: "wf_state s \<and> idx < MAX_PLAYERS \<and> (\<forall>i. \<not> admissible s idx (drawn_cell rnd n i))"
  then have wf: "wf_state s" and idx: "idx < MAX_PLAYERS" by simp_all
  have len: "idx < length (players s)" using wf idx by (simp add: wf_state_def)
  have "\<forall>k. blocked (draw_position rnd idx (n + 2 * k) s) idx"
    using a blocked_draw_admissible[OF wf idx] by simp
  with len show "spawn_position rnd idx n s = None"
    by (rule spawn_position_never)
qed

lemma obstacle_cells_list:
  "obstacle_cells obs = set (filter (\<lambda>(r, c). obs ! r ! c = 1) (List.product [0..<5] [0..<5]))"
  by (auto simp: obstacle_cells_def)

lemma obstacle_cells_demo: "card (obstacle_cells demo_obstacles) = 3"
proof -
  have "filter (\<lambda>(r, c). demo_obstacles ! r ! c = 1) (List.product [0..<5] [0..<5])
      = [(0, 0), (3, 3), (4, 4)]"
    by code_simp
  then show ?thesis by (simp add: obstacle_cells_list)
qed

lemma drawn_cells_demo: "card (drawn_cells demo_rand 1 3) = 3"
proof -
  have "{..<3::nat} = {0, 1, 2}" by auto
  then have "drawn_cells demo_rand 1 3 = {(0, 0), (3, 3), (4, 4)}"
    by (simp add: drawn_cells_def demo_rand_def)
  then show ?thesis by simp
qed

theorem sampling_loops_return_witness:
  "3 + demo_rand 0 mod 3 \<le> card (drawn_cells demo_rand 1 3)
   \<and> (\<exists>s0 n0. init_game demo_rand = Some (s0, n0) \<and> wf_state s0 \<and>
         3 \<le> card (obstacle_cells (obstacles s0)) \<and> card (obstacle_cells (obstacles s0)) \<le> 5)
   \<and> wf_state (occupy 1 11 solo) \<and> card (obstacle_cells (obstacles (occupy 1 11 solo))) \<le> 5
   \<and> (\<exists>r c. admissible (occupy 1 11 solo) 1 (int r, int c))
   \<and> \<not> admissible (occupy 1 11 solo) 1 (drawn_cell demo_rand 7 0)
   \<and> admissible (occupy 1 11 solo) 1 (drawn_cell demo_rand 7 1)
   \<and> spawn_position demo_rand 1 7 (occupy 1 11 solo) = Some (duel\<lparr>player_count := 1\<rparr>, 11)
   \<and> (\<forall>i. \<not> admissible (occupy 1 11 solo) 1 (drawn_cell stuck_rand 7 i))
   \<and> spawn_position stuck_rand 1 7 (occupy 1 11 solo) = None"
proof -
  have i: "(1::nat) < MAX_PLAYERS" by simp
  have h1: "3 + demo_rand 0 mod 3 \<le> card (drawn_cells demo_rand 1 3)"
  proof -
    have "demo_rand 0 mod 3 = 0" by (simp add: demo_rand_def)
    then show ?thesis unfolding drawn_cells_demo by simp
  qed
  have h2: "card (obstacle_cells (obstacles (occupy 1 11 solo))) \<le> 5"
    by (simp add: occupy_def solo_def obstacle_cells_demo)
  have cells: "drawn_cell demo_rand 7 0 = (0, 1)" "drawn_cell demo_rand 7 1 = (0, 2)"
    by (simp_all add: drawn_cell_def demo_rand_def)
  have no: "\<not> admissible (occupy 1 11 solo) 1 (drawn_cell demo_rand 7 0)"
    unfolding cells by (simp add: admissible_def cell_taken_iff ex_less_4) (simp add: occupy_def solo_def)
  have yes: "admissible (occupy 1 11 solo) 1 (drawn_cell demo_rand 7 1)"
    unfolding cells
    by (simp add: admissible_def cell_taken_iff ex_less_4 obstacle_at_def)
      (simp add: occupy_def solo_def demo_obstacles_def)
  have never: "\<forall>i. \<not> admissible (occupy 1 11 solo) 1 (drawn_cell stuck_rand 7 i)"
    by (simp add: drawn_cell_def stuck_rand_def admissible_def obstacle_at_def)
      (simp add: occupy_def solo_def demo_obstacles_def)
  note res = sampling_loops_return[of demo_rand 3 "occupy 1 11 solo" 1 7 1]
  have a: "\<exists>s0 n0. init_game demo_rand = Some (s0, n0) \<and> wf_state s0 \<and>
         3 \<le> card (obstacle_cells (obstacles s0)) \<and> card (obstacle_cells (obstacles s0)) \<le> 5"
    using res h1 by blast
  have b: "\<exists>r c. admissible (occupy 1 11 solo) 1 (int r, int c)"
    using res wf_occupied_solo i h2 by blast
  have "\<exists>j\<le>1. spawn_position demo_rand 1 7 (occupy 1 11 solo) =
             Some (set_position 1 (fst (drawn_cell demo_rand 7 j)) (snd (drawn_cell demo_rand 7 j))
                     (occupy 1 11 solo), 7 + 2 * j + 2) \<and>
           admissible (occupy 1 11 solo) 1 (drawn_cell demo_rand 7 j) \<and>
           (\<forall>i<j. \<not> admissible (occupy 1 11 solo) 1 (drawn_cell demo_rand 7 i))"
    using res wf_occupied_solo i yes by blast
  then obtain j where j: "j \<le> 1" "spawn_position demo_rand 1 7 (occupy 1 11 solo) =
             Some (set_position 1 (fst (drawn_cell demo_rand 7 j)) (snd (drawn_cell demo_rand 7 j))
                     (occupy 1 11 solo), 7 + 2 * j + 2)"
      "admissible (occupy 1 11 solo) 1 (drawn_cell demo_rand 7 j)"
    by blast
  have "j = 1" using j(1,3) no by (cases "j = 0") auto
  have placed: "set_position 1 (fst (drawn_cell demo_rand 7 1)) (snd (drawn_cell demo_rand 7 1))
      (occupy 1 11 solo) = duel\<lparr>player_count := 1\<rparr>"
    unfolding cells by (simp add: set_position_def occupy_def solo_def duel_def)
  have c: "spawn_position demo_rand 1 7 (occupy 1 11 solo) = Some (duel\<lparr>player_count := 1\<rparr>, 11)"
    using j(2) unfolding \<open>j = 1\<close> placed by simp
  have d: "spawn_position stuck_rand 1 7 (occupy 1 11 solo) = None"
    using sampling_loops_return[of stuck_rand 3 "occupy 1 11 solo" 1 7 1] wf_occupied_solo i never
    by blast
  show ?thesis using h1 a wf_occupied_solo h2 b no yes c never d by blast
qed


text \<open>
  The claim as stated fails: rejection sampling has no bound on its retries. On a
  sequence of draws that always hits the same cell, the obstacle loop never places its
  second obstacle, and the placement loop never leaves an obstacle cell, in a state with
  3 obstacles and no other occupied slot.
\<close>

theorem sampling_loops_counterexample:
  "init_game stuck_rand = None
   \<and> wf_state (occupy 0 10 arena0) \<and> card (obstacle_cells (obstacles (occupy 0 10 arena0))) = 3
   \<and> filter (\<lambda>p. active p \<noteq> 0) (players arena0) = []
   \<and> spawn_position stuck_rand 0 0 (occupy 0 10 arena0) = None"
proof -
  have wf: "wf_state (occupy 0 10 arena0)"
    by (simp add: wf_state_def wf_grid_def occupy_def arena0_def demo_obstacles_def init_players_nth)
  have "obstacles (occupy 0 10 arena0) ! 0 ! 0 = 1"
    by (simp add: occupy_def arena0_def demo_obstacles_def)
  moreover have "0 < length (players (occupy 0 10 arena0))"
    using wf by (simp add: wf_state_def)
  ultimately have "spawn_position stuck_rand 0 0 (occupy 0 10 arena0) = None"
    by (rule spawn_position_stuck)
  moreover have "card (obstacle_cells (obstacles (occupy 0 10 arena0))) = 3"
    by (simp add: occupy_def arena0_def obstacle_cells_demo)
  moreover have "filter (\<lambda>p. active p \<noteq> 0) (players arena0) = []"
    by code_simp
  ultimately show ?thesis using init_game_stuck wf by blast
qed

subsection \<open>Joining\<close>

lemma find_free_slot_least:
  "find_free_slot s = Some idx \<longleftrightarrow>
     idx < MAX_PLAYERS \<and> active (players s ! idx) = 0 \<and> (\<forall>i<idx. active (players s ! i) \<noteq> 0)"
  unfolding find_free_slot_def find_Some_iff
  by (auto simp del: upt_Suc)

lemma free_slot_exists:
  assumes "int (card {i. i < MAX_PLAYERS \<and> active (players s ! i) \<noteq> 0}) < int MAX_PLAYERS"
  shows "\<exists>idx. find_free_slot s = Some idx"
proof -
  have "\<exists>i<MAX_PLAYERS. active (players s ! i) = 0"
  proof (rule ccontr)
    assume "\<not> (\<exists>i<MAX_PLAYERS. active (players s ! i) = 0)"
    then have "{i. i < MAX_PLAYERS \<and> active (players s ! i) \<noteq> 0} = {..<MAX_PLAYERS}" by auto
    then show False using assms by simp
  qed
  then have "\<exists>i. i < MAX_PLAYERS \<and> active (players s ! i) = 0" by blast
  then obtain idx where "idx < MAX_PLAYERS \<and> active (players s ! idx) = 0"
    and "\<forall>i<idx. \<not> (i < MAX_PLAYERS \<and> active (players s ! i) = 0)"
    using exists_least_iff[of "\<lambda>i. i < MAX_PLAYERS \<and> active (players s ! i) = 0"] by blast
  then have "find_free_slot s = Some idx"
    unfolding find_free_slot_least by auto
  then show ?thesis ..
qed

lemma find_free_slot_none:
  "find_free_slot s = None \<longleftrightarrow> (\<forall>i<MAX_PLAYERS. active (players s ! i) \<noteq> 0)"
  unfolding find_free_slot_def find_None_iff by auto

lemma free_slot_found:
  assumes "\<exists>i<MAX_PLAYERS. active (players s ! i) = 0"
  shows "\<exists>idx. find_free_slot s = Some idx"
  using assms find_free_slot_none[of s] by (cases "find_free_slot s") auto

lemma admissible_occupy:
  assumes "wf_state s" and "idx < MAX_PLAYERS"
  shows "admissible (occupy idx fd s) idx cell = admissible s idx cell"
proof -
  have len: "length (players s) = MAX_PLAYERS" using assms by (simp add: wf_state_def)
  have "players (occupy idx fd s) ! q = players s ! q" if "q \<noteq> idx" for q
    using that by (simp add: occupy_def)
  then have "cell_taken (occupy idx fd s) idx r c = cell_taken s idx r c" for r c
    unfolding cell_taken_iff by auto
  then show ?thesis by (simp add: admissible_def obstacle_at_def occupy_def)
qed

lemma joined_eq:
  assumes "idx < length (players s)"
  shows "(set_position idx r c (occupy idx fd s))
      \<lparr>player_count := player_count (set_position idx r c (occupy idx fd s)) + 1\<rparr>
    = joined s idx fd (r, c)"
  using assms by (simp add: set_position_def occupy_def joined_def)

text \<open>
  Claim C7, as amended. When the counter is \<open>MAX_PLAYERS\<close>, a join sends the server-full
  message, closes the new socket, and leaves the state as it is. When the counter is less
  and no slot is free, the join sends the server-error message, closes the new socket, and
  leaves the state as it is. When the counter is less and a slot is free, as is the case
  whenever the counter equals the number of occupied slots, the join takes the lowest free
  slot \<open>idx\<close>; if the draws contain an admissible cell (neither an obstacle nor the cell of
  an occupied slot), the slot is placed on the first such cell with health \<open>MAX_HP\<close>, the
  new socket and \<open>active = 1\<close>, the counter is incremented, and that state is broadcast.
\<close>

theorem join_resolution:
  assumes wf: "wf_state s"
  shows "(player_count s = int MAX_PLAYERS \<longrightarrow>
           accept_client rnd fd fails n s = Some (s, n, [Send fd msg_server_full, Close fd], None))
    \<and> (player_count s < int MAX_PLAYERS \<and> (\<forall>i<MAX_PLAYERS. active (players s ! i) \<noteq> 0) \<longrightarrow>
           accept_client rnd fd fails n s = Some (s, n, [Send fd msg_no_slot, Close fd], None))
    \<and> (player_count s < int MAX_PLAYERS
          \<and> player_count s = int (card {i. i < MAX_PLAYERS \<and> active (players s ! i) \<noteq> 0}) \<longrightarrow>
         (\<exists>i<MAX_PLAYERS. active (players s ! i) = 0))
    \<and> (player_count s < int MAX_PLAYERS \<and> (\<exists>i<MAX_PLAYERS. active (players s ! i) = 0) \<longrightarrow>
         (\<exists>idx<MAX_PLAYERS. active (players s ! idx) = 0 \<and> (\<forall>i<idx. active (players s ! i) \<noteq> 0) \<and>
            (\<forall>k. admissible s idx (drawn_cell rnd n k) \<longrightarrow>
               (\<exists>j\<le>k. admissible s idx (drawn_cell rnd n j) \<and>
                  (\<forall>i<j. \<not> admissible s idx (drawn_cell rnd n i)) \<and>
                  accept_client rnd fd fails n s =
                    Some (fst (broadcast_state_locked fails (joined s idx fd (drawn_cell rnd n j))),
                          n + 2 * j + 2,
                          snd (broadcast_state_locked fails (joined s idx fd (drawn_cell rnd n j))),
                          Some idx)))))"
proof (intro conjI impI)
  assume "player_count s = int MAX_PLAYERS"
  then show "accept_client rnd fd fails n s = Some (s, n, [Send fd msg_server_full, Close fd], None)"
    by (simp add: accept_client_def)
next
  assume "player_count s < int MAX_PLAYERS \<and> (\<forall>i<MAX_PLAYERS. active (players s ! i) \<noteq> 0)"
  then have "player_count s < int MAX_PLAYERS" "find_free_slot s = None"
    unfolding find_free_slot_none by simp_all
  then show "accept_client rnd fd fails n s = Some (s, n, [Send fd msg_no_slot, Close fd], None)"
    by (simp add: accept_client_def)
next
  assume "player_count s < int MAX_PLAYERS
      \<and> player_count s = int (card {i. i < MAX_PLAYERS \<and> active (players s ! i) \<noteq> 0})"
  then have "\<exists>idx. find_free_slot s = Some idx"
    using free_slot_exists[of s] by simp
  then show "\<exists>i<MAX_PLAYERS. active (players s ! i) = 0"
    unfolding find_free_slot_least by blast
next
  assume a: "player_count s < int MAX_PLAYERS \<and> (\<exists>i<MAX_PLAYERS. active (players s ! i) = 0)"
  then have less: "player_count s < int MAX_PLAYERS" by simp
  obtain idx where slot: "find_free_slot s = Some idx"
    using a free_slot_found[of s] by blast
  then have idx: "idx < MAX_PLAYERS" "active (players s ! idx) = 0"
    "\<forall>i<idx. active (players s ! i) \<noteq> 0"
    unfolding find_free_slot_least by simp_all
  have len: "idx < length (players s)" using wf idx(1) by (simp add: wf_state_def)
  let ?o = "occupy idx fd s"
  have wfo: "wf_state ?o" using wf by (simp add: wf_state_def occupy_def)
  have adm: "admissible ?o idx cell = admissible s idx cell" for cell
    using wf idx(1) by (rule admissible_occupy)
  have "\<exists>j\<le>k. admissible s idx (drawn_cell rnd n j) \<and>
          (\<forall>i<j. \<not> admissible s idx (drawn_cell rnd n i)) \<and>
          accept_client rnd fd fails n s =
            Some (fst (broadcast_state_locked fails (joined s idx fd (drawn_cell rnd n j))),
                  n + 2 * j + 2,
                  snd (broadcast_state_locked fails (joined s idx fd (drawn_cell rnd n j))),
                  Some idx)"
    if k: "admissible s idx (drawn_cell rnd n k)" for k
  proof -
    have "\<not> blocked (draw_position rnd idx (n + 2 * k) ?o) idx"
      using k blocked_draw_admissible[OF wfo idx(1)] adm by simp
    moreover have "idx < length (players ?o)" using len by (simp add: occupy_def)
    ultimately obtain j where j: "j \<le> k"
      "spawn_position rnd idx n ?o = Some (draw_position rnd idx (n + 2 * j) ?o, n + 2 * j + 2)"
      "\<not> blocked (draw_position rnd idx (n + 2 * j) ?o) idx"
      "\<forall>i<j. blocked (draw_position rnd idx (n + 2 * i) ?o) idx"
      using spawn_position_returns[of idx ?o rnd n k] by blast
    have place: "(draw_position rnd idx (n + 2 * j) ?o)
        \<lparr>player_count := player_count (draw_position rnd idx (n + 2 * j) ?o) + 1\<rparr>
        = joined s idx fd (drawn_cell rnd n j)"
      unfolding draw_position_def drawn_cell_def using joined_eq[OF len] by simp
    have "accept_client rnd fd fails n s =
        Some (fst (broadcast_state_locked fails (joined s idx fd (drawn_cell rnd n j))),
              n + 2 * j + 2,
              snd (broadcast_state_locked fails (joined s idx fd (drawn_cell rnd n j))),
              Some idx)"
      using less slot j(2) place by (simp add: accept_client_def case_prod_beta)
    moreover have "admissible s idx (drawn_cell rnd n j)"
      using j(3) blocked_draw_admissible[OF wfo idx(1)] adm by simp
    moreover have "\<forall>i<j. \<not> admissible s idx (drawn_cell rnd n i)"
      using j(4) blocked_draw_admissible[OF wfo idx(1)] adm by simp
    ultimately show ?thesis using j(1) by blast
  qed
  then show "\<exists>idx<MAX_PLAYERS. active (players s ! idx) = 0 \<and> (\<forall>i<idx. active (players s ! i) \<noteq> 0) \<and>
            (\<forall>k. admissible s idx (drawn_cell rnd n k) \<longrightarrow>
               (\<exists>j\<le>k. admissible s idx (drawn_cell rnd n j) \<and>
                  (\<forall>i<j. \<not> admissible s idx (drawn_cell rnd n i)) \<and>
                  accept_client rnd fd fails n s =
                    Some (fst (broadcast_state_locked fails (joined s idx fd (drawn_cell rnd n j))),
                          n + 2 * j + 2,
                          snd (broadcast_state_locked fails (joined s idx fd (drawn_cell rnd n j))),
                          Some idx)))"
    using idx by blast
qed

theorem join_resolution_witness:
  "wf_state pileup
   \<and> player_count pileup = int MAX_PLAYERS
   \<and> accept_client demo_rand 14 never_fails 11 pileup =
        Some (pileup, 11, [Send 14 msg_server_full, Close 14], None)
   \<and> wf_state crowded \<and> player_count crowded < int MAX_PLAYERS
   \<and> active (players crowded ! 0) \<noteq> 0 \<and> active (players crowded ! 1) \<noteq> 0
   \<and> active (players crowded ! 2) \<noteq> 0 \<and> active (players crowded ! 3) \<noteq> 0
   \<and> accept_client demo_rand 14 never_fails 11 crowded =
        Some (crowded, 11, [Send 14 msg_no_slot, Close 14], None)
   \<and> wf_state solo
   \<and> player_count solo = int (card {i. i < MAX_PLAYERS \<and> active (players solo ! i) \<noteq> 0})
   \<and> player_count solo < int MAX_PLAYERS
   \<and> active (players solo ! 1) = 0
   \<and> \<not> admissible solo 1 (drawn_cell demo_rand 7 0) \<and> admissible solo 1 (drawn_cell demo_rand 7 1)
   \<and> accept_client demo_rand 11 never_fails 7 solo =
        Some (fst (broadcast_state_locked never_fails duel), 11,
              snd (broadcast_state_locked never_fails duel), Some 1)"
proof -
  have full: "player_count pileup = int MAX_PLAYERS"
    by (simp add: pileup_def)
  have refused: "accept_client demo_rand 14 never_fails 11 pileup =
        Some (pileup, 11, [Send 14 msg_server_full, Close 14], None)"
    using join_resolution[OF wf_pileup, of demo_rand 14 never_fails 11] full by blast
  have three: "player_count crowded < int MAX_PLAYERS"
    and occupied: "active (players crowded ! 0) \<noteq> 0" "active (players crowded ! 1) \<noteq> 0"
      "active (players crowded ! 2) \<noteq> 0" "active (players crowded ! 3) \<noteq> 0"
    by (simp_all add: crowded_def pileup_def)
  have "\<forall>i<MAX_PLAYERS. active (players crowded ! i) \<noteq> 0"
    unfolding all_less_4 using occupied by simp
  then have no_slot: "accept_client demo_rand 14 never_fails 11 crowded =
        Some (crowded, 11, [Send 14 msg_no_slot, Close 14], None)"
    using join_resolution[OF wf_crowded, of demo_rand 14 never_fails 11] three by blast
  have one: "player_count solo = int (card {i. i < MAX_PLAYERS \<and> active (players solo ! i) \<noteq> 0})"
    "player_count solo < int MAX_PLAYERS"
    unfolding card_slots by (simp_all add: slots_list solo_def)
  have cells: "drawn_cell demo_rand 7 0 = (0, 1)" "drawn_cell demo_rand 7 1 = (0, 2)"
    by (simp_all add: drawn_cell_def demo_rand_def)
  have no: "\<not> admissible solo 1 (drawn_cell demo_rand 7 0)"
    unfolding cells by (simp add: admissible_def cell_taken_iff ex_less_4) (simp add: solo_def)
  have yes: "admissible solo 1 (drawn_cell demo_rand 7 1)"
    unfolding cells
    by (simp add: admissible_def cell_taken_iff ex_less_4 obstacle_at_def)
      (simp add: solo_def demo_obstacles_def)
  note res = join_resolution[OF wf_solo, of demo_rand 11 never_fails 7]
  have free: "\<exists>i<MAX_PLAYERS. active (players solo ! i) = 0"
    using res one by blast
  with res one(2)
  obtain idx where idx: "idx < MAX_PLAYERS" "active (players solo ! idx) = 0"
    "\<forall>i<idx. active (players solo ! i) \<noteq> 0"
    and draws: "\<forall>k. admissible solo idx (drawn_cell demo_rand 7 k) \<longrightarrow>
       (\<exists>j\<le>k. admissible solo idx (drawn_cell demo_rand 7 j) \<and>
          (\<forall>i<j. \<not> admissible solo idx (drawn_cell demo_rand 7 i)) \<and>
          accept_client demo_rand 11 never_fails 7 solo =
            Some (fst (broadcast_state_locked never_fails (joined solo idx 11 (drawn_cell demo_rand 7 j))),
                  7 + 2 * j + 2,
                  snd (broadcast_state_locked never_fails (joined solo idx 11 (drawn_cell demo_rand 7 j))),
                  Some idx))"
    by blast
  have slots: "active (players solo ! 0) \<noteq> 0" "active (players solo ! 1) = 0"
    by (simp_all add: solo_def)
  then have "idx = 1"
    using idx(2,3) by (metis One_nat_def less_one linorder_neqE_nat)
  from draws yes obtain j where j: "j \<le> 1" "admissible solo 1 (drawn_cell demo_rand 7 j)"
    "accept_client demo_rand 11 never_fails 7 solo =
       Some (fst (broadcast_state_locked never_fails (joined solo 1 11 (drawn_cell demo_rand 7 j))),
             7 + 2 * j + 2,
             snd (broadcast_state_locked never_fails (joined solo 1 11 (drawn_cell demo_rand 7 j))),
             Some 1)"
    unfolding \<open>idx = 1\<close> by blast
  have "j = 1" using j(1,2) no by (cases "j = 0") auto
  have placed: "joined solo 1 11 (drawn_cell demo_rand 7 1) = duel"
    unfolding cells by (simp add: joined_def solo_def duel_def)
  have accepted: "accept_client demo_rand 11 never_fails 7 solo =
        Some (fst (broadcast_state_locked never_fails duel), 11,
              snd (broadcast_state_locked never_fails duel), Some 1)"
    using j(3) unfolding \<open>j = 1\<close> placed by simp
  show ?thesis
    using wf_pileup full refused wf_crowded three occupied no_slot wf_solo one slots(2) no yes accepted
    by blast
qed

text \<open>
  The claim as stated fails in two ways. When the counter is below \<open>MAX_PLAYERS\<close> although
  every slot is occupied, the join finds no free slot: it sends the server-error message
  and changes nothing (lines 367-374). And on draws that never hit an admissible cell the
  join does not return at all.
\<close>

theorem join_counterexample:
  "player_count crowded < int MAX_PLAYERS
   \<and> accept_client demo_rand 14 never_fails 11 crowded =
        Some (crowded, 11, [Send 14 msg_no_slot, Close 14], None)
   \<and> msg_no_slot \<noteq> msg_server_full
   \<and> player_count arena0 < int MAX_PLAYERS
   \<and> accept_client stuck_rand 10 never_fails 0 arena0 = None"
proof -
  have a: "player_count crowded < int MAX_PLAYERS"
    "accept_client demo_rand 14 never_fails 11 crowded =
        Some (crowded, 11, [Send 14 msg_no_slot, Close 14], None)"
    "msg_no_slot \<noteq> msg_server_full" "player_count arena0 < int MAX_PLAYERS"
    "find_free_slot arena0 = Some 0"
    by code_simp+
  have "obstacles (occupy 0 10 arena0) ! 0 ! 0 = 1" "0 < length (players (occupy 0 10 arena0))"
    by (simp_all add: occupy_def arena0_def demo_obstacles_def init_players_nth)
  then have "spawn_position stuck_rand 0 0 (occupy 0 10 arena0) = None"
    by (rule spawn_position_stuck)
  then have "accept_client stuck_rand 10 never_fails 0 arena0 = None"
    using a(4,5) by (simp add: accept_client_def)
  then show ?thesis using a by blast
qed

subsection \<open>The values stay small\<close>

text \<open>
  In every reachable configuration the coordinates of all four slots are within 0..4 and
  their health within 0..100, so no \<^verbatim>\<open>row - 1\<close>, \<^verbatim>\<open>col + 1\<close> or \<^verbatim>\<open>hp -= DAMAGE\<close> of the
  program leaves the range of a C \<^verbatim>\<open>int\<close>.
\<close>

lemma same_values_ok: "values_ok s \<Longrightarrow> same_values s s' \<Longrightarrow> values_ok s'"
  by (simp add: values_ok_def same_values_def)

lemma same_values_trans: "same_values s t \<Longrightarrow> same_values t u \<Longrightarrow> same_values s u"
  by (simp add: same_values_def)

lemma same_values_broadcast:
  assumes "wf_state s"
  shows "same_values s (fst (broadcast_state_locked fails s))"
proof -
  have len: "length (players s) = MAX_PLAYERS" using assms by (simp add: wf_state_def)
  show ?thesis unfolding same_values_def by (simp add: broadcast_nth[OF len])
qed

lemma same_values_remove_player: "same_values s (remove_player p s)"
  by (simp add: same_values_def remove_player_def nth_update_total)

lemma same_values_free_and_broadcast:
  assumes "wf_state s"
  shows "same_values s (fst (broadcast_state_locked fails (remove_player p s)))"
proof -
  have "wf_state (remove_player p s)" using assms shrinks_remove_player by (rule shrinks_wf)
  then have "same_values (remove_player p s) (fst (broadcast_state_locked fails (remove_player p s)))"
    by (rule same_values_broadcast)
  then show ?thesis using same_values_remove_player same_values_trans by blast
qed

lemma values_ok_handle_attack:
  assumes "wf_state s" and "values_ok s"
  shows "values_ok (fst (handle_attack idx fd fails s))"
proof (cases "attack_scan idx [0..<MAX_PLAYERS] s")
  case (fields s1 out hit)
  have len: "length (players s) = MAX_PLAYERS" using assms by (simp add: wf_state_def)
  have asc: "distinct [0..<MAX_PLAYERS]" "set [0..<MAX_PLAYERS] \<subseteq> {..<MAX_PLAYERS}" by auto
  have s1: "s1 = fst (attack_scan idx [0..<MAX_PLAYERS] s)" using fields by simp
  have ok1: "values_ok s1"
    unfolding values_ok_def s1 using assms(2)
    by (auto simp: attack_scan_nth[OF len asc] struck_def values_ok_def)
  have wf1: "wf_state s1"
    unfolding s1 using shrinks_attack_scan[OF assms(1)] assms(1) shrinks_wf by blast
  have "values_ok (fst (broadcast_state_locked fails s1))"
    using same_values_ok[OF ok1 same_values_broadcast[OF wf1]] .
  then show ?thesis using ok1 by (simp add: handle_attack_def fields case_prod_beta)
qed

lemma values_ok_set_position:
  assumes "wf_state s" and "values_ok s" and "idx < MAX_PLAYERS"
    and "0 \<le> r" "r < GRID_SIZE" "0 \<le> c" "c < GRID_SIZE"
  shows "values_ok (set_position idx r c s)"
proof -
  have len: "length (players s) = MAX_PLAYERS" using assms by (simp add: wf_state_def)
  show ?thesis
    unfolding values_ok_def using assms len
    by (auto simp: set_position_nth values_ok_def)
qed

lemma values_ok_move_locked:
  assumes "wf_state s" and "values_ok s" and "idx < MAX_PLAYERS"
  shows "values_ok (fst (move_locked idx fd fails newR newC s))"
proof (cases "newR < 0 \<or> newR \<ge> GRID_SIZE \<or> newC < 0 \<or> newC \<ge> GRID_SIZE \<or>
    obstacle_at s newR newC = 1 \<or> cell_taken s idx newR newC")
  case True
  then show ?thesis using assms by (auto simp: move_locked_def)
next
  case False
  let ?m = "set_position idx newR newC s"
  have ok: "values_ok ?m" using values_ok_set_position[OF assms, of newR newC] False by simp
  have wf: "wf_state ?m" using assms(1) by (simp add: wf_state_def set_position_simps)
  have "move_locked idx fd fails newR newC s = broadcast_state_locked fails ?m"
    using False by (auto simp: move_locked_def)
  then show ?thesis using same_values_ok[OF ok same_values_broadcast[OF wf]] by simp
qed

lemma values_ok_client_command:
  assumes "wf_state s" and "values_ok s" and "idx < MAX_PLAYERS"
  shows "values_ok (fst (client_command idx fd fails buf seenR seenC s))"
proof -
  have mv: "values_ok (fst (handle_move idx fd fails l seenR seenC s))" for l
    using values_ok_move_locked[OF assms] assms(2) by (simp add: handle_move_def Let_def)
  have qu: "values_ok (fst (handle_quit idx fails s))"
    using same_values_ok[OF assms(2) same_values_free_and_broadcast[OF assms(1)]]
    by (simp add: handle_quit_def case_prod_beta)
  show ?thesis
    using mv qu values_ok_handle_attack[OF assms(1,2)] assms(2)
    by (simp add: client_command_def Let_def case_prod_beta)
qed

lemma values_ok_accept_client:
  assumes wf: "wf_state s" and ok: "values_ok s"
    and acc: "accept_client rnd client_fd fails n s = Some (s', n', out, oidx)"
  shows "values_ok s'"
proof (cases "player_count s \<ge> int MAX_PLAYERS \<or> find_free_slot s = None")
  case True
  then have "s' = s" using acc by (auto simp: accept_client_def split: if_splits)
  then show ?thesis using ok by simp
next
  case False
  then obtain idx where slot: "find_free_slot s = Some idx" by auto
  have idx: "idx < MAX_PLAYERS" using find_free_slot_Some[OF slot] by simp
  have len: "length (players s) = MAX_PLAYERS" using wf by (simp add: wf_state_def)
  from acc False slot obtain s1 n1 where
    sp: "spawn_position rnd idx n (occupy idx client_fd s) = Some (s1, n1)"
    and res: "s' = fst (broadcast_state_locked fails (s1\<lparr>player_count := player_count s1 + 1\<rparr>))"
    by (auto simp: accept_client_def case_prod_beta split: if_splits option.splits)
  have "idx < length (players (occupy idx client_fd s))" using idx len by (simp add: occupy_def)
  from spawn_position_Some[OF sp this]
  obtain r c where rc: "0 \<le> r" "r < GRID_SIZE" "0 \<le> c" "c < GRID_SIZE"
    and s1: "s1 = set_position idx r c (occupy idx client_fd s)"
    by auto
  let ?s2 = "s1\<lparr>player_count := player_count s1 + 1\<rparr>"
  have nth: "players s1 ! q =
      (if q = idx then (players s ! idx)\<lparr>row := r, col := c, hp := MAX_HP, socket_fd := client_fd, active := 1\<rparr>
       else players s ! q)" if "q < MAX_PLAYERS" for q
    using len idx that by (simp add: s1 set_position_def occupy_def nth_list_update)
  have ok2: "values_ok ?s2"
    unfolding values_ok_def using ok rc by (auto simp: nth values_ok_def)
  have wf2: "wf_state ?s2"
    using wf by (simp add: s1 wf_state_def set_position_def occupy_def)
  show ?thesis unfolding res using same_values_ok[OF ok2 same_values_broadcast[OF wf2]] .
qed

lemma values_ok_init:
  assumes "init_game rnd = Some (s, n)"
  shows "values_ok s"
proof -
  have "row (init_players ! i) = 0 \<and> col (init_players ! i) = 0 \<and> hp (init_players ! i) = 0"
    if "i < MAX_PLAYERS" for i
    using that by (simp add: init_players_def del: upt_Suc)
  moreover have "players s = init_players"
    using assms by (auto simp: init_game_def split: option.splits)
  ultimately show ?thesis by (simp add: values_ok_def)
qed

lemma reachable_values_ok:
  assumes "reachable rnd c"
  shows "values_ok (game c)"
  using assms
proof (induction rule: reachable.induct)
  case (start s n)
  then show ?case using values_ok_init by simp
next
  case (refuse c client_fd fails s n out)
  then show ?case
    using values_ok_accept_client[of "game c" rnd client_fd fails "rand_calls c" s n out None]
      reachable_config_ok[of rnd c] by (simp add: config_ok_def)
next
  case (join c client_fd fails s n out idx)
  then show ?case
    using values_ok_accept_client[of "game c" rnd client_fd fails "rand_calls c" s n out "Some idx"]
      reachable_config_ok[of rnd c] by (simp add: config_ok_def)
next
  case (join_unspawned c client_fd fails s n out idx)
  then show ?case
    using values_ok_accept_client[of "game c" rnd client_fd fails "rand_calls c" s n out "Some idx"]
      reachable_config_ok[of rnd c] by (simp add: config_ok_def)
next
  case (unspawned_cleanup c idx)
  then show ?case
    using same_values_ok[OF _ same_values_remove_player, of "game c" idx]
    by (simp add: spawn_failed_def)
next
  case (command c h buf fails s out quit)
  have "wf_state (game c)" "player_index h < MAX_PLAYERS"
    using reachable_config_ok[OF command(1)] command(2) by (simp_all add: config_ok_def)
  then show ?case
    using values_ok_client_command[of "game c" "player_index h" "sockfd h" fails buf
        "row (players (game c) ! player_index h)" "col (players (game c) ! player_index h)"] command
    by simp
next
  case (stale_move c h fails newR newC)
  have "wf_state (game c)" "player_index h < MAX_PLAYERS"
    using reachable_config_ok[OF stale_move(1)] stale_move(2) by (simp_all add: config_ok_def)
  then show ?case
    using values_ok_move_locked[of "game c" "player_index h" "sockfd h" fails newR newC] stale_move
    by simp
next
  case (disconnect c h fails)
  have wf: "wf_state (game c)"
    using reachable_config_ok[OF disconnect(1)] by (simp add: config_ok_def)
  show ?case
    using same_values_ok[OF disconnect(4) same_values_free_and_broadcast[OF wf]] disconnect(4)
    by (simp add: client_disconnect_def case_prod_beta)
next
  case (cleanup c h)
  have "same_values (game c) (fst (client_cleanup (player_index h) (sockfd h) (game c)))"
    by (simp add: same_values_def client_cleanup_def nth_update_total)
  then show ?case using same_values_ok[OF cleanup(4)] by simp
qed

end
